theory Spec2Isabelle
  imports Main
begin

section \<open>Identity scheme: \<^verbatim>\<open>VizId\<close>\<close>

text \<open>
  Source: \<^verbatim>\<open>src/neo4j-graph-view/viz/visualization.ts\<close>, class \<^verbatim>\<open>VizId\<close>.
  A JavaScript string is modelled as a \<^typ>\<open>string\<close>: a list of code units.

  \<^verbatim>\<open>String.prototype.split\<close> with a one-character separator and
  \<^verbatim>\<open>Array.prototype.join\<close> are the two library functions \<^verbatim>\<open>fromId\<close> calls.
  \<^verbatim>\<open>''.split(':')\<close> is the one-element array holding the empty string, and a string
  without the separator is returned whole as the only piece.
\<close>

fun split_str :: "char \<Rightarrow> string \<Rightarrow> string list" where
  "split_str c [] = [[]]"
| "split_str c (x # xs) =
     (if x = c then [] # split_str c xs
      else (case split_str c xs of
              [] \<Rightarrow> [[x]]
            | w # ws \<Rightarrow> (x # w) # ws))"

fun join_str :: "string \<Rightarrow> string list \<Rightarrow> string" where
  "join_str sep [] = []"
| "join_str sep [w] = w"
| "join_str sep (w # v # ws) = w @ sep @ join_str sep (v # ws)"

record VizId =
  id :: string
  storeId :: string

text \<open>\<^verbatim>\<open>toString(): return `${this.storeId}:${this.id}`\<close>; \<^verbatim>\<open>toId()\<close> returns the same.\<close>

definition toString :: "VizId \<Rightarrow> string" where
  "toString v = storeId v @ '':'' @ id v"

definition toId :: "VizId \<Rightarrow> string" where
  "toId v = toString v"

text \<open>
  \<^verbatim>\<open>static fromId(id)\<close>: \<^verbatim>\<open>split = id.split(':')\<close>, \<^verbatim>\<open>storeId = split[0]\<close>,
  \<^verbatim>\<open>_id = split.slice(1).join(':')\<close>. The array \<^verbatim>\<open>split\<close> is never empty
  (lemma \<open>split_str_not_Nil\<close>), so \<^verbatim>\<open>split[0]\<close> is always a string; the first branch of
  the case below is unreachable.
\<close>

definition fromId :: "string \<Rightarrow> VizId" where
  "fromId s =
     (let split = split_str CHR '':'' s in
      case split of
        [] \<Rightarrow> \<lparr>id = [], storeId = []\<rparr>
      | st # rest \<Rightarrow> \<lparr>id = join_str '':'' rest, storeId = st\<rparr>)"

text \<open>\<^verbatim>\<open>static toId(id, storeId)\<close>.\<close>

definition toId_static :: "string \<Rightarrow> string \<Rightarrow> string" where
  "toId_static i s = toId \<lparr>id = i, storeId = s\<rparr>"

section \<open>Graph state store\<close>

text \<open>
  The view keeps its graph in a cytoscape instance (\<^verbatim>\<open>this.viz\<close>). The library is
  not part of the repository; the operations the view calls are modelled here after the
  library's documented behaviour, each under the name of the call it stands for.

  A data value is one of the JSON scalars (arrays and nested objects are not needed
  by any operation of the view and are left out); the length of a \<open>Str\<close> is its
  number of code units, as \<^verbatim>\<open>.length\<close> is in JavaScript. A data object is a finite
  map from field names to values; an absent field reads as \<^verbatim>\<open>undefined\<close>.
\<close>

datatype jsval = Str string | Num int | Bool bool | Null

type_synonym jsobj = "string \<rightharpoonup> jsval"

text \<open>
  What a call can fail with: the TypeError of \<^verbatim>\<open>onGraphChanged\<close>, the rejection of a
  data store's promise, and the Error thrown by \<^verbatim>\<open>cy.add\<close>.
\<close>

datatype error = TypeError | Rejected | CyError

text \<open>
  An \<^verbatim>\<open>ElementDefinition\<close> as a data store returns it. \<open>d_id\<close> is \<^verbatim>\<open>data.id\<close>;
  \<open>d_ends\<close> is \<^verbatim>\<open>(data.source, data.target)\<close>, present for an edge and absent for a node
  (cytoscape infers the group from these two fields); \<open>d_classes\<close> is the optional
  \<^verbatim>\<open>classes\<close> field, already split into class names; \<open>d_data\<close> holds the other
  fields of \<^verbatim>\<open>data\<close>: a key \<^verbatim>\<open>id\<close>, \<^verbatim>\<open>source\<close>, \<^verbatim>\<open>target\<close> or \<^verbatim>\<open>parent\<close> in it is
  ignored. Every record of the view carries a string id (the encoded \<^verbatim>\<open>VizId\<close>), and
  an edge record carries both ends, as the types \<^verbatim>\<open>NodeDefinition\<close> and
  \<^verbatim>\<open>EdgeDefinition\<close> require. Compound nodes are outside the model: the records carry
  no \<^verbatim>\<open>parent\<close>. Other optional fields of a definition (group, position, selected,
  ...) are not modelled.
\<close>

record eledef =
  d_id :: string
  d_ends :: "(string \<times> string) option"
  d_classes :: "string list option"
  d_data :: jsobj

text \<open>
  An element of the live graph. Its classes are a set of names, as in cytoscape.
  \<open>e_id\<close> and \<open>e_ends\<close> hold the immutable fields \<^verbatim>\<open>id\<close>, \<^verbatim>\<open>source\<close>, \<^verbatim>\<open>target\<close>;
  \<open>e_data\<close> holds the other fields of \<^verbatim>\<open>data\<close>. No element has a \<^verbatim>\<open>parent\<close>.
  The graph is the list of its elements in insertion order.
\<close>

record ele =
  e_id :: string
  e_ends :: "(string \<times> string) option"
  e_classes :: "string set"
  e_data :: jsobj
  e_selected :: bool

type_synonym graph = "ele list"

definition CLASS_PINNED :: string where
  "CLASS_PINNED = ''pinned''"

definition CLASS_EXPANDED :: string where
  "CLASS_EXPANDED = ''expanded''"

definition isNode :: "ele \<Rightarrow> bool" where
  "isNode e = (e_ends e = None)"

definition isNodeDef :: "eledef \<Rightarrow> bool" where
  "isNodeDef n = (d_ends n = None)"

text \<open>\<^verbatim>\<open>cy.$id(i)\<close>: the element with that id, if any; \<^verbatim>\<open>cy.$id(i).length === 0\<close>.\<close>

definition getElementById :: "string \<Rightarrow> graph \<Rightarrow> ele option" where
  "getElementById i g = find (\<lambda>e. e_id e = i) g"

definition has_id :: "graph \<Rightarrow> string \<Rightarrow> bool" where
  "has_id g i = (i \<in> set (map e_id g))"

definition has_node :: "graph \<Rightarrow> string \<Rightarrow> bool" where
  "has_node g i = (i \<in> set (map e_id (filter isNode g)))"

text \<open>The classes and the data of the element with a given id (empty when absent).\<close>

definition classes_of :: "graph \<Rightarrow> string \<Rightarrow> string set" where
  "classes_of g i = (case getElementById i g of None \<Rightarrow> {} | Some e \<Rightarrow> e_classes e)"

definition data_of :: "graph \<Rightarrow> string \<Rightarrow> jsobj" where
  "data_of g i = (case getElementById i g of None \<Rightarrow> Map.empty | Some e \<Rightarrow> e_data e)"

text \<open>A mutation of the element with id \<open>i\<close>, in place.\<close>

definition upd :: "string \<Rightarrow> (ele \<Rightarrow> ele) \<Rightarrow> graph \<Rightarrow> graph" where
  "upd i f g = map (\<lambda>e. if e_id e = i then f e else e) g"

subsection \<open>Element operations\<close>

definition hasClass :: "ele \<Rightarrow> string \<Rightarrow> bool" where
  "hasClass e c = (c \<in> e_classes e)"

definition addClass :: "string \<Rightarrow> ele \<Rightarrow> ele" where
  "addClass c e = e\<lparr>e_classes := insert c (e_classes e)\<rparr>"

definition removeClass :: "string \<Rightarrow> ele \<Rightarrow> ele" where
  "removeClass c e = e\<lparr>e_classes := e_classes e - {c}\<rparr>"

text \<open>
  \<^verbatim>\<open>ele.classes(x)\<close>: with \<^verbatim>\<open>x\<close> undefined it is the getter and changes nothing;
  otherwise the class list of the element is replaced by \<^verbatim>\<open>x\<close>.
\<close>

definition classes_call :: "string list option \<Rightarrow> ele \<Rightarrow> ele" where
  "classes_call x e = (case x of None \<Rightarrow> e | Some cs \<Rightarrow> e\<lparr>e_classes := set cs\<rparr>)"

text \<open>
  \<^verbatim>\<open>ele.data(obj)\<close> updates the fields named in \<^verbatim>\<open>obj\<close> and keeps every other field;
  the immutable fields \<^verbatim>\<open>id\<close>, \<^verbatim>\<open>source\<close>, \<^verbatim>\<open>target\<close> and \<^verbatim>\<open>parent\<close> are skipped.
  \<^verbatim>\<open>ele.data(name, value)\<close> sets one field.
\<close>

definition immutableKeys :: "string set" where
  "immutableKeys = {''id'', ''source'', ''target'', ''parent''}"

definition data_obj :: "jsobj \<Rightarrow> ele \<Rightarrow> ele" where
  "data_obj obj e = e\<lparr>e_data := e_data e ++ (obj |` (- immutableKeys))\<rparr>"

definition data_set :: "string \<Rightarrow> jsval \<Rightarrow> ele \<Rightarrow> ele" where
  "data_set k v e = e\<lparr>e_data := (e_data e)(k \<mapsto> v)\<rparr>"

text \<open>\<^verbatim>\<open>cy.nodes()\<close>, \<^verbatim>\<open>getExpanded()\<close>, \<^verbatim>\<open>getPinned()\<close>.\<close>

definition nodes :: "graph \<Rightarrow> ele list" where
  "nodes g = filter isNode g"

definition getExpanded :: "graph \<Rightarrow> ele list" where
  "getExpanded g = filter (\<lambda>e. hasClass e CLASS_EXPANDED) (nodes g)"

definition getPinned :: "graph \<Rightarrow> ele list" where
  "getPinned g = filter (\<lambda>e. hasClass e CLASS_PINNED) (nodes g)"

text \<open>
  \<^verbatim>\<open>node.degree(false)\<close>: the number of edges at the node, loops not counted.
\<close>

definition touches :: "string \<Rightarrow> ele \<Rightarrow> bool" where
  "touches i e = (case e_ends e of None \<Rightarrow> False | Some (s, t) \<Rightarrow> s = i \<or> t = i)"

definition isLoop :: "ele \<Rightarrow> bool" where
  "isLoop e = (case e_ends e of None \<Rightarrow> False | Some (s, t) \<Rightarrow> s = t)"

definition degree :: "graph \<Rightarrow> string \<Rightarrow> nat" where
  "degree g i = length (filter (\<lambda>e. touches i e \<and> \<not> isLoop e) g)"

subsection \<open>\<^verbatim>\<open>cy.add\<close>\<close>

text \<open>
  \<^verbatim>\<open>cy.add(defs)\<close> first creates elements from the definitions, silently skipping a
  definition whose id is already in the graph or was used by an earlier definition of
  the array. It then restores the created elements one by one, the nodes before the
  edges, putting each into the graph as it goes. It throws an Error at the first
  element that has the empty string as id, or whose id is in the graph, or that is an
  edge with an empty source or target or with a source or target that is not the id of
  an element of the graph (\<^verbatim>\<open>cy.hasElementWithId\<close>). The elements restored before the
  throw stay in the graph; those after it are not added. A new element has the classes
  and the data of its definition and is not selected. The call returns the collection
  of the created elements.
\<close>

fun create :: "eledef list \<Rightarrow> string list \<Rightarrow> graph \<Rightarrow> eledef list" where
  "create [] seen g = []"
| "create (n # ns) seen g =
     (if has_id g (d_id n) \<or> d_id n \<in> set seen then create ns seen g
      else n # create ns (d_id n # seen) g)"

definition new_ele :: "eledef \<Rightarrow> ele" where
  "new_ele n =
     \<lparr>e_id = d_id n, e_ends = d_ends n,
      e_classes = (case d_classes n of None \<Rightarrow> {} | Some cs \<Rightarrow> set cs),
      e_data = d_data n |` (- immutableKeys), e_selected = False\<rparr>"

definition restorable :: "graph \<Rightarrow> eledef \<Rightarrow> bool" where
  "restorable g n =
     (d_id n \<noteq> [] \<and> \<not> has_id g (d_id n) \<and>
      (case d_ends n of
         None \<Rightarrow> True
       | Some (s, t) \<Rightarrow> s \<noteq> [] \<and> t \<noteq> [] \<and> has_id g s \<and> has_id g t))"

fun restore :: "eledef list \<Rightarrow> graph \<Rightarrow> (error + unit) \<times> graph" where
  "restore [] g = (Inr (), g)"
| "restore (n # ns) g =
     (if restorable g n then restore ns (g @ [new_ele n]) else (Inl CyError, g))"

definition add :: "eledef list \<Rightarrow> graph \<Rightarrow> (error + string list) \<times> graph" where
  "add defs g =
     (let created = create defs [] g;
          elements = filter isNodeDef created @ filter (\<lambda>n. \<not> isNodeDef n) created
      in case restore elements g of
           (Inl err, g1) \<Rightarrow> (Inl err, g1)
         | (Inr u, g1) \<Rightarrow> (Inr (map d_id created), g1))"

section \<open>Incremental merge engine\<close>

text \<open>
  \<^verbatim>\<open>onGraphChanged\<close>: for every node, in order, \<^verbatim>\<open>node.data('degree', node.degree(false))\<close>
  and \<^verbatim>\<open>node.data('nameLength', node.data('name').length)\<close>. Reading \<^verbatim>\<open>.length\<close> of
  \<^verbatim>\<open>undefined\<close> or \<^verbatim>\<open>null\<close> throws a TypeError, which ends the loop with the nodes
  before it updated. A number or a boolean has no \<^verbatim>\<open>length\<close>, and
  \<^verbatim>\<open>node.data('nameLength', undefined)\<close> is a read. The loop changes no edge, so the
  degrees are those of the graph the loop starts with. The \<^verbatim>\<open>batch\<close> flag only brackets
  the loop with \<^verbatim>\<open>startBatch\<close>/\<^verbatim>\<open>endBatch\<close>, which delay redrawing.
\<close>

fun metrics :: "(string \<Rightarrow> nat) \<Rightarrow> ele list \<Rightarrow> (error + unit) \<times> ele list" where
  "metrics deg [] = (Inr (), [])"
| "metrics deg (e # es) =
     (if \<not> isNode e then (case metrics deg es of (r, es') \<Rightarrow> (r, e # es'))
      else
        (let e1 = data_set ''degree'' (Num (int (deg (e_id e)))) e in
         case e_data e1 ''name'' of
           None \<Rightarrow> (Inl TypeError, e1 # es)
         | Some Null \<Rightarrow> (Inl TypeError, e1 # es)
         | Some (Str s) \<Rightarrow>
             (case metrics deg es of
                (r, es') \<Rightarrow> (r, data_set ''nameLength'' (Num (int (length s))) e1 # es'))
         | Some _ \<Rightarrow> (case metrics deg es of (r, es') \<Rightarrow> (r, e1 # es'))))"

definition onGraphChanged :: "bool \<Rightarrow> graph \<Rightarrow> (error + unit) \<times> graph" where
  "onGraphChanged batch g = metrics (degree g) g"

text \<open>
  The body of the \<^verbatim>\<open>else\<close> branch of \<^verbatim>\<open>mergeToGraph\<close>, on the element \<^verbatim>\<open>gElement\<close>
  found in the graph. The last step (\<^verbatim>\<open>getExpanded().contains(gElement)\<close>) looks the
  element up among the nodes that carry \<^verbatim>\<open>expanded\<close>.
\<close>

definition merge_existing :: "eledef \<Rightarrow> ele \<Rightarrow> ele" where
  "merge_existing n gElement =
     (let extraClasses =
            (if hasClass gElement CLASS_EXPANDED then [CLASS_EXPANDED] else []) @
            (if hasClass gElement CLASS_PINNED then [CLASS_PINNED] else []);
          g1 = classes_call (d_classes n) gElement;
          g2 = foldl (\<lambda>e clazz. addClass clazz e) g1 extraClasses;
          g3 = data_obj (d_data n) g2
      in if isNode g3 \<and> hasClass g3 CLASS_EXPANDED then addClass ''expanded'' g3 else g3)"

text \<open>
  \<^verbatim>\<open>collection.merge(eles)\<close> on collections given by their ids: the elements that are
  not yet in the collection are appended.
\<close>

definition coll_merge :: "string list \<Rightarrow> string list \<Rightarrow> string list" where
  "coll_merge xs ys = xs @ filter (\<lambda>y. y \<notin> set xs) (remdups ys)"

text \<open>
  The \<^verbatim>\<open>forEach\<close> of \<^verbatim>\<open>mergeToGraph\<close>: the state is the graph, \<^verbatim>\<open>addElements\<close> and the ids
  of \<^verbatim>\<open>mergedCollection\<close>.
\<close>

fun merge_loop ::
  "eledef list \<Rightarrow> graph \<times> eledef list \<times> string list \<Rightarrow> graph \<times> eledef list \<times> string list"
where
  "merge_loop [] st = st"
| "merge_loop (n # ns) (g, addElements, merged) =
     (if \<not> has_id g (d_id n) then merge_loop ns (g, addElements @ [n], merged)
      else merge_loop ns
             (upd (d_id n) (merge_existing n) g, addElements,
              coll_merge merged [d_id n]))"

text \<open>
  \<^verbatim>\<open>mergeToGraph(elements, batch)\<close>. The result is the graph as the call leaves it,
  together with either the ids of the returned collection or the error thrown by
  \<^verbatim>\<open>this.viz.add\<close> or by \<^verbatim>\<open>onGraphChanged\<close>. The changes made before a throw stay
  in the graph; a throw of \<^verbatim>\<open>this.viz.add\<close> skips \<^verbatim>\<open>onGraphChanged\<close>.
\<close>

definition mergeToGraph :: "eledef list \<Rightarrow> bool \<Rightarrow> graph \<Rightarrow> (error + string list) \<times> graph" where
  "mergeToGraph elements batch g =
     (case merge_loop elements (g, [], []) of
        (g1, addElements, merged) \<Rightarrow>
          (case add addElements g1 of
             (Inl err, g2) \<Rightarrow> (Inl err, g2)
           | (Inr added, g2) \<Rightarrow>
               (case onGraphChanged False g2 of
                  (Inl err, g3) \<Rightarrow> (Inl err, g3)
                | (Inr u, g3) \<Rightarrow> (Inr (coll_merge merged added), g3))))"

section \<open>Expansion and interaction\<close>

text \<open>
  A collection of elements is modelled as the list of their ids; an operation on a
  collection acts on the elements of the graph with these ids. \<^verbatim>\<open>restartLayout\<close>,
  \<^verbatim>\<open>trigger\<close> and the viewport animation change nothing of the graph and are left out.
\<close>

subsection \<open>Traversal\<close>

text \<open>
  \<^verbatim>\<open>node.connectedEdges()\<close>, and \<^verbatim>\<open>nodes.neighborhood()\<close>: for every node of the
  collection and every edge at it, the node at the other end of the edge and the edge
  (for a loop the other end is the node itself).
\<close>

definition connectedEdges :: "graph \<Rightarrow> string \<Rightarrow> ele list" where
  "connectedEdges g i = filter (touches i) g"

definition neighborhood :: "graph \<Rightarrow> string list \<Rightarrow> string list" where
  "neighborhood g ns =
     concat (map (\<lambda>i. concat (map (\<lambda>e. case e_ends e of
                                          None \<Rightarrow> []
                                        | Some (s, t) \<Rightarrow> [if i = s then t else s, e_id e])
                                 (connectedEdges g i)))
                 (filter (has_node g) ns))"

definition closedNeighborhood :: "graph \<Rightarrow> string list \<Rightarrow> string list" where
  "closedNeighborhood g ns = neighborhood g ns @ ns"

subsection \<open>Hiding nodes\<close>

text \<open>
  \<^verbatim>\<open>nodes.remove()\<close> takes the elements of the collection and the edges connected to
  its nodes out of the graph. The graph has no compound nodes, so there are no
  descendants to remove with them. The remaining elements are listed here in the order
  they had; cytoscape moves the last element of its pool into the place of a removed
  one.
\<close>

definition remove :: "string list \<Rightarrow> graph \<Rightarrow> graph" where
  "remove ns g =
     filter (\<lambda>e. e_id e \<notin> set ns \<and> \<not> list_ex (\<lambda>i. has_node g i \<and> touches i e) ns) g"

text \<open>
  \<^verbatim>\<open>removeNodes(nodes)\<close>:
  \<^verbatim>\<open>this.getExpanded().intersection(nodes.neighborhood()).removeClass('expanded')\<close>, then
  \<^verbatim>\<open>nodes.remove()\<close>. The result is the collection of the removed elements and the graph.
\<close>

definition removeNodes :: "string list \<Rightarrow> graph \<Rightarrow> string list \<times> graph" where
  "removeNodes ns g =
     (let nb = neighborhood g ns;
          expanded = map e_id (getExpanded g);
          g1 = map (\<lambda>e. if e_id e \<in> set expanded \<and> e_id e \<in> set nb
                         then removeClass ''expanded'' e else e) g;
          g2 = remove ns g1
      in (filter (\<lambda>i. \<not> has_id g2 i) (map e_id g1), g2))"

subsection \<open>Selection\<close>

definition select :: "ele \<Rightarrow> ele" where
  "select e = e\<lparr>e_selected := True\<rparr>"

definition unselect :: "ele \<Rightarrow> ele" where
  "unselect e = e\<lparr>e_selected := False\<rparr>"

text \<open>\<^verbatim>\<open>this.viz.nodes(':selected')\<close>: the selection the commands of the view act on.\<close>

definition selectedNodes :: "graph \<Rightarrow> ele list" where
  "selectedNodes g = filter e_selected (nodes g)"

text \<open>\<^verbatim>\<open>selectAll()\<close>: \<^verbatim>\<open>this.viz.nodes().select()\<close>.\<close>

definition selectAll :: "graph \<Rightarrow> graph" where
  "selectAll g = map (\<lambda>e. if isNode e then select e else e) g"

text \<open>
  \<^verbatim>\<open>invertSelection()\<close>:
  \<^verbatim>\<open>this.viz.$(':selected').unselect().absoluteComplement().select()\<close>. The collection
  \<^verbatim>\<open>$(':selected')\<close> holds the selected elements, nodes and edges alike; its absolute
  complement holds all other elements of the graph.
\<close>

definition invertSelection :: "graph \<Rightarrow> graph" where
  "invertSelection g =
     (let sel = map e_id (filter e_selected g);
          g1 = map (\<lambda>e. if e_id e \<in> set sel then unselect e else e) g;
          comp = filter (\<lambda>i. i \<notin> set sel) (map e_id g1)
      in map (\<lambda>e. if e_id e \<in> set comp then select e else e) g1)"

subsection \<open>Data stores\<close>

text \<open>
  Modelled from the spec: the interface \<^verbatim>\<open>IDataStore\<close> (the file \<^verbatim>\<open>../interfaces\<close> that
  declares it is not among the sources). The specification lists the capabilities
  \<^verbatim>\<open>storeId() -> string\<close>, \<^verbatim>\<open>getNeighbourhood(identities) -> [NodeRecord]\<close> (async, may
  fail) and \<^verbatim>\<open>connectNodes(existingNodes, newNodes) -> [EdgeRecord]\<close> (async); these are
  the three calls the view makes. A store is a parameter of the model: any functions
  of these types. A promise that rejects is the value \<open>Inl\<close>.
\<close>

record datastore =
  ds_storeId :: string
  getNeighbourhood :: "VizId list \<Rightarrow> error + eledef list"
  connectNodes :: "ele list \<Rightarrow> ele list \<Rightarrow> error + eledef list"

text \<open>
  \<^verbatim>\<open>neighbourhood(toExpand)\<close>: the stores are asked one after the other; each result is
  awaited and pushed to \<^verbatim>\<open>nodes\<close>. There is no \<^verbatim>\<open>try\<close>: a rejected promise makes the
  \<^verbatim>\<open>await\<close> throw out of the loop and of the function.
\<close>

fun neighbourhood_loop ::
  "datastore list \<Rightarrow> VizId list \<Rightarrow> eledef list \<Rightarrow> error + eledef list" where
  "neighbourhood_loop [] toExpand nodez = Inr nodez"
| "neighbourhood_loop (store # stores) toExpand nodez =
     (case getNeighbourhood store toExpand of
        Inl err \<Rightarrow> Inl err
      | Inr res \<Rightarrow> neighbourhood_loop stores toExpand (nodez @ res))"

definition neighbourhood :: "datastore list \<Rightarrow> VizId list \<Rightarrow> error + eledef list" where
  "neighbourhood stores toExpand = neighbourhood_loop stores toExpand []"

text \<open>\<^verbatim>\<open>buildEdges(newNodes)\<close>, the same loop over \<^verbatim>\<open>store.connectNodes(this.viz.nodes(), newNodes)\<close>.\<close>

fun buildEdges_loop ::
  "datastore list \<Rightarrow> graph \<Rightarrow> ele list \<Rightarrow> eledef list \<Rightarrow> error + eledef list" where
  "buildEdges_loop [] g newNodes edges = Inr edges"
| "buildEdges_loop (store # stores) g newNodes edges =
     (case connectNodes store (nodes g) newNodes of
        Inl err \<Rightarrow> Inl err
      | Inr res \<Rightarrow> buildEdges_loop stores g newNodes (edges @ res))"

definition buildEdges :: "datastore list \<Rightarrow> graph \<Rightarrow> ele list \<Rightarrow> error + eledef list" where
  "buildEdges stores g newNodes = buildEdges_loop stores g newNodes []"

subsection \<open>Active file\<close>

definition removeClasses :: "string list \<Rightarrow> ele \<Rightarrow> ele" where
  "removeClasses cs e = e\<lparr>e_classes := e_classes e - set cs\<rparr>"

text \<open>
  \<^verbatim>\<open>updateActiveFile(node, followImmediate)\<close>, without the animation and the one-shot
  \<^verbatim>\<open>tap\<close> listener.
\<close>

definition updateActiveFile :: "string list \<Rightarrow> bool \<Rightarrow> graph \<Rightarrow> graph" where
  "updateActiveFile node followImmediate g =
     (let cn = closedNeighborhood g node;
          g1 = map (\<lambda>e. let e' = removeClasses
                                   [''connected-active-file'', ''active-file'', ''inactive-file''] e
                         in if e_id e \<in> set cn then e' else addClass ''inactive-file'' e') g;
          g2 = map (\<lambda>e. if e_id e \<in> set node then addClass ''active-file'' e else e) g1;
          ce = filter (\<lambda>e. list_ex (\<lambda>i. has_node g i \<and> touches i e) node) g2;
          g3 = map (\<lambda>e. if e_id e \<in> set (map e_id ce)
                         then addClass ''connected-active-file'' e else e) g2;
          cnodes = concat (map (\<lambda>e. case e_ends e of None \<Rightarrow> [] | Some (s, t) \<Rightarrow> [s, t]) ce)
      in map (\<lambda>e. if e_id e \<in> set cnodes
                   then addClass ''connected-active-file'' e else e) g3)"

subsection \<open>Expand\<close>

text \<open>
  The collection built by \<^verbatim>\<open>nodes.merge(this.viz.$id(n.data.id))\<close> over the fetched
  records: the elements of the graph with these ids, each once.
\<close>

definition collect :: "graph \<Rightarrow> string list \<Rightarrow> ele list" where
  "collect g ids =
     foldl (\<lambda>acc i. case getElementById i g of
                       None \<Rightarrow> acc
                     | Some e \<Rightarrow> if e_id e \<in> set (map e_id acc) then acc else acc @ [e])
           [] ids"

text \<open>
  \<^verbatim>\<open>expand(toExpand)\<close>. Every \<^verbatim>\<open>await\<close> that rejects and every throw of \<^verbatim>\<open>mergeToGraph\<close>
  ends the function there, with the graph as it is at that moment. The result is the
  collection \<^verbatim>\<open>edgesInGraph\<close> or the error, and the graph.
\<close>

definition expand ::
  "datastore list \<Rightarrow> string list \<Rightarrow> graph \<Rightarrow> (error + string list) \<times> graph" where
  "expand stores toExpand g =
     (let expandedIds = map fromId toExpand in
      case neighbourhood stores expandedIds of
        Inl err \<Rightarrow> (Inl err, g)
      | Inr nb \<Rightarrow>
          (case mergeToGraph nb True g of
             (Inl err, g1) \<Rightarrow> (Inl err, g1)
           | (Inr merged, g1) \<Rightarrow>
               (let nodez = collect g1 (map d_id nb) in
                case buildEdges stores g1 nodez of
                  Inl err \<Rightarrow> (Inl err, g1)
                | Inr edges \<Rightarrow>
                    (case mergeToGraph edges True g1 of
                       (Inl err, g2) \<Rightarrow> (Inl err, g2)
                     | (Inr edgesInGraph, g2) \<Rightarrow>
                         (let g3 = map (\<lambda>e. if e_id e \<in> set toExpand
                                             then addClass CLASS_EXPANDED e else e) g2;
                              g4 = updateActiveFile toExpand False g3
                          in (Inr edgesInGraph, g4))))))"

section \<open>Hover preview\<close>

text \<open>
  The delayed preview task of \<^verbatim>\<open>onOpen\<close>: the handlers for \<^verbatim>\<open>mouseover\<close> on a node,
  \<^verbatim>\<open>mouseover\<close> on an edge and \<^verbatim>\<open>mouseout\<close>, together with the timers they start
  and clear. The handlers run one at a time on the event loop; the state they share is

  \<^item> \<open>hoverTimeout\<close>, the record \<^verbatim>\<open>this.hoverTimeout\<close>: a key holds a timer handle, or
    \<^verbatim>\<open>undefined\<close> (\<open>None\<close>) once \<^verbatim>\<open>mouseout\<close> has reset it;
  \<^item> \<open>pending\<close>, the timers started by \<^verbatim>\<open>setTimeout\<close> that have neither fired nor been
    cleared, each with the element its popover is for;
  \<^item> \<open>next_handle\<close>, the handle the next \<^verbatim>\<open>setTimeout\<close> returns;
  \<^item> \<open>reading\<close>, the node handlers suspended at \<^verbatim>\<open>await view.vault.cachedRead(file)\<close>;
  \<^item> \<open>popovers\<close>, the calls of \<^verbatim>\<open>popover\<close> made by timers that fired.

  The highlight classes the handlers set on the graph are not part of this state.
\<close>

record hover =
  hoverTimeout :: "string \<rightharpoonup> nat option"
  pending :: "(nat \<times> string) list"
  next_handle :: nat
  reading :: "string list"
  popovers :: "(nat \<times> string) list"

definition hover_init :: hover where
  "hover_init = \<lparr>hoverTimeout = Map.empty, pending = [], next_handle = 0, reading = [],
                  popovers = []\<rparr>"

text \<open>
  What can happen next. \<open>MouseoverNode i md\<close>: the pointer enters node \<open>i\<close>, and \<open>md\<close>
  tells whether \<^verbatim>\<open>getFirstLinkpathDest\<close> finds a file with extension \<^verbatim>\<open>md\<close>.
  \<open>ReadDone i\<close>: the promise of \<^verbatim>\<open>cachedRead\<close> awaited by a handler for \<open>i\<close> resolves
  and the handler goes on. \<open>MouseoverEdge i ctx\<close>: the pointer enters edge \<open>i\<close>, and
  \<open>ctx\<close> tells whether \<^verbatim>\<open>'context' in edge.data()\<close>. \<open>Mouseout i\<close>: the pointer leaves
  element \<open>i\<close>. \<open>Fire h\<close>: the delay of timer \<open>h\<close> has passed.
\<close>

datatype event =
    MouseoverNode string bool
  | ReadDone string
  | MouseoverEdge string bool
  | Mouseout string
  | Fire nat

text \<open>\<^verbatim>\<open>this.hoverTimeout[i] = setTimeout(() => this.popover(...), 500)\<close>.\<close>

definition setTimeout :: "string \<Rightarrow> hover \<Rightarrow> hover" where
  "setTimeout i s =
     s\<lparr>hoverTimeout := (hoverTimeout s)(i \<mapsto> Some (next_handle s)),
       pending := pending s @ [(next_handle s, i)],
       next_handle := Suc (next_handle s)\<rparr>"

text \<open>\<^verbatim>\<open>clearTimeout(x)\<close>; with \<^verbatim>\<open>undefined\<close> it does nothing.\<close>

definition clearTimeout :: "nat option \<Rightarrow> hover \<Rightarrow> hover" where
  "clearTimeout x s =
     (case x of None \<Rightarrow> s
      | Some h \<Rightarrow> s\<lparr>pending := filter (\<lambda>p. fst p \<noteq> h) (pending s)\<rparr>)"

text \<open>
  One handler run. The node handler reads \<^verbatim>\<open>id = VizId.fromNode(e.target)\<close> and goes
  on to the read only for \<^verbatim>\<open>id.storeId === 'core'\<close> and an \<^verbatim>\<open>md\<close> file; it calls
  \<^verbatim>\<open>setTimeout\<close> after the read. The \<^verbatim>\<open>mouseout\<close> handler tests
  \<^verbatim>\<open>id in this.hoverTimeout\<close>, clears the timer stored there and stores \<^verbatim>\<open>undefined\<close>.
  Neither \<^verbatim>\<open>mouseover\<close> handler clears a timer.
\<close>

fun step :: "event \<Rightarrow> hover \<Rightarrow> hover" where
  "step (MouseoverNode i md) s =
     (if storeId (fromId i) = ''core'' \<and> md then s\<lparr>reading := reading s @ [i]\<rparr> else s)"
| "step (ReadDone i) s =
     (if i \<in> set (reading s) then setTimeout i (s\<lparr>reading := remove1 i (reading s)\<rparr>) else s)"
| "step (MouseoverEdge i ctx) s = (if ctx then setTimeout i s else s)"
| "step (Mouseout i) s =
     (case hoverTimeout s i of
        None \<Rightarrow> s
      | Some x \<Rightarrow> (clearTimeout x s)\<lparr>hoverTimeout := (hoverTimeout s)(i \<mapsto> None)\<rparr>)"
| "step (Fire h) s =
     (case find (\<lambda>p. fst p = h) (pending s) of
        None \<Rightarrow> s
      | Some p \<Rightarrow> s\<lparr>pending := filter (\<lambda>q. fst q \<noteq> h) (pending s),
                    popovers := popovers s @ [p]\<rparr>)"

definition run :: "event list \<Rightarrow> hover \<Rightarrow> hover" where
  "run evs s = foldl (\<lambda>s ev. step ev s) s evs"

text \<open>The delayed tasks pending for an element, and the popovers opened by a timer.\<close>

definition pending_for :: "hover \<Rightarrow> string \<Rightarrow> (nat \<times> string) list" where
  "pending_for s i = filter (\<lambda>p. snd p = i) (pending s)"

definition opened_by :: "hover \<Rightarrow> nat \<Rightarrow> (nat \<times> string) list" where
  "opened_by s h = filter (\<lambda>p. fst p = h) (popovers s)"

text \<open>
  Event sequences in which the pointer is over at most one element at a time (every
  \<^verbatim>\<open>mouseover\<close> is followed by the \<^verbatim>\<open>mouseout\<close> of the same element before the next
  \<^verbatim>\<open>mouseover\<close>) and the read of a node handler resolves before any other event. The
  first argument is the element under the pointer.
\<close>

fun alternating :: "string option \<Rightarrow> event list \<Rightarrow> bool" where
  "alternating cur [] = True"
| "alternating cur (Fire h # evs) = alternating cur evs"
| "alternating None (MouseoverNode i md # evs) =
     (if storeId (fromId i) = ''core'' \<and> md
      then (case evs of ReadDone j # evs' \<Rightarrow> j = i \<and> alternating (Some i) evs' | _ \<Rightarrow> False)
      else alternating (Some i) evs)"
| "alternating None (MouseoverEdge i ctx # evs) = alternating (Some i) evs"
| "alternating (Some x) (Mouseout i # evs) = (i = x \<and> alternating None evs)"
| "alternating cur (ev # evs) = False"

section \<open>Notions used in the statements and proofs\<close>

text \<open>The two tags the merge protects, and the tag set of an incoming record.\<close>

definition protected :: "string set" where
  "protected = {CLASS_PINNED, CLASS_EXPANDED}"

definition def_tags :: "eledef \<Rightarrow> string set" where
  "def_tags n = (case d_classes n of None \<Rightarrow> {} | Some cs \<Rightarrow> set cs)"

text \<open>
  What the \<^verbatim>\<open>forEach\<close> of \<^verbatim>\<open>mergeToGraph\<close> does to one element of the graph: every
  record of the list that carries the element's id is merged into it, in list order.
\<close>

definition apply_all :: "eledef list \<Rightarrow> ele \<Rightarrow> ele" where
  "apply_all L e = foldl (\<lambda>e n. if d_id n = e_id e then merge_existing n e else e) e L"

text \<open>Two elements that agree on everything but the data fields named in \<open>K\<close>.\<close>

definition eq_except :: "string set \<Rightarrow> ele \<Rightarrow> ele \<Rightarrow> bool" where
  "eq_except K e e' =
     (e_id e' = e_id e \<and> e_ends e' = e_ends e \<and> e_classes e' = e_classes e \<and>
      e_selected e' = e_selected e \<and> (\<forall>k. k \<notin> K \<longrightarrow> e_data e' k = e_data e k))"

definition metric_keys :: "string set" where
  "metric_keys = {''degree'', ''nameLength''}"

text \<open>One round of the loop of \<open>metrics\<close> on a node, and whether it throws there.\<close>

definition metric_node :: "(string \<Rightarrow> nat) \<Rightarrow> ele \<Rightarrow> ele" where
  "metric_node deg e =
     (let e1 = data_set ''degree'' (Num (int (deg (e_id e)))) e in
      case e_data e ''name'' of
        Some (Str s) \<Rightarrow> data_set ''nameLength'' (Num (int (length s))) e1
      | _ \<Rightarrow> e1)"


text \<open>The ids and ends of a graph: what existence checks and degrees depend on.\<close>

definition shape :: "graph \<Rightarrow> (string \<times> (string \<times> string) option) list" where
  "shape g = zip (map e_id g) (map e_ends g)"

text \<open>
  The created elements in the order \<^verbatim>\<open>cy.add\<close> restores them, and the elements it
  restores before it throws (all of them when it does not throw).
\<close>

definition elems :: "eledef list \<Rightarrow> eledef list" where
  "elems created = filter isNodeDef created @ filter (\<lambda>n. \<not> isNodeDef n) created"

fun taken :: "eledef list \<Rightarrow> graph \<Rightarrow> eledef list" where
  "taken [] g = []"
| "taken (n # ns) g = (if restorable g n then n # taken ns (g @ [new_ele n]) else [])"



text \<open>The tags \<^verbatim>\<open>updateActiveFile\<close> writes.\<close>

definition active_classes :: "string set" where
  "active_classes = {''connected-active-file'', ''active-file'', ''inactive-file''}"

text \<open>Two elements that agree on id, ends and all classes but the active-file ones.\<close>

definition same_but_active :: "ele \<Rightarrow> ele \<Rightarrow> bool" where
  "same_but_active e e' =
     (e_id e' = e_id e \<and> e_ends e' = e_ends e \<and>
      e_classes e' - active_classes = e_classes e - active_classes)"

text \<open>
  Invariants of the hover state: every handle in use is below \<open>next_handle\<close>; a
  handle that was issued and is not pending; and the shape of the state while the
  pointer is over no element or over the element \<open>x\<close> (under \<open>alternating\<close>).
\<close>

definition handles_fresh :: "hover \<Rightarrow> bool" where
  "handles_fresh s =
     ((\<forall>p\<in>set (pending s). fst p < next_handle s) \<and>
      (\<forall>i h. hoverTimeout s i = Some (Some h) \<longrightarrow> h < next_handle s))"

definition cancelled :: "nat \<Rightarrow> hover \<Rightarrow> bool" where
  "cancelled h s = (h < next_handle s \<and> h \<notin> fst ` set (pending s))"

definition hover_inv :: "string option \<Rightarrow> hover \<Rightarrow> bool" where
  "hover_inv cur s =
     (reading s = [] \<and>
      (case cur of
         None \<Rightarrow> pending s = []
       | Some x \<Rightarrow> pending s = [] \<or>
                   (\<exists>h. pending s = [(h, x)] \<and> hoverTimeout s x = Some (Some h))))"

subsection \<open>Example elements and records\<close>

text \<open>
  Node \<^verbatim>\<open>A\<close>, pinned and expanded, with a field \<^verbatim>\<open>old\<close>; a re-fetched record for
  \<^verbatim>\<open>A\<close> that carries the tag \<^verbatim>\<open>visited\<close> and the name only; two records for one
  new id \<^verbatim>\<open>B\<close> with different tags.
\<close>

definition ex_A :: ele where
  "ex_A = \<lparr>e_id = ''core:A'', e_ends = None, e_classes = {''pinned'', ''expanded''},
           e_data = [''name'' \<mapsto> Str ''A'', ''old'' \<mapsto> Num 1], e_selected = False\<rparr>"

definition ex_visited :: eledef where
  "ex_visited = \<lparr>d_id = ''core:A'', d_ends = None, d_classes = Some [''visited''],
                 d_data = [''name'' \<mapsto> Str ''A'']\<rparr>"

definition ex_B1 :: eledef where
  "ex_B1 = \<lparr>d_id = ''core:B'', d_ends = None, d_classes = Some [''x''],
            d_data = [''name'' \<mapsto> Str ''B'']\<rparr>"


text \<open>
  Node \<^verbatim>\<open>B\<close>, expanded, with its only neighbour \<^verbatim>\<open>C\<close> (selected) and the edge between
  them.
\<close>

definition ex_B :: ele where
  "ex_B = \<lparr>e_id = ''core:B'', e_ends = None, e_classes = {''expanded''},
           e_data = [''name'' \<mapsto> Str ''B''], e_selected = False\<rparr>"

definition ex_C :: ele where
  "ex_C = \<lparr>e_id = ''core:C'', e_ends = None, e_classes = {},
           e_data = [''name'' \<mapsto> Str ''C''], e_selected = True\<rparr>"

definition ex_BC :: ele where
  "ex_BC = \<lparr>e_id = ''core:B->C'', e_ends = Some (''core:B'', ''core:C''), e_classes = {},
            e_data = Map.empty, e_selected = False\<rparr>"

text \<open>
  A store that rejects every call; a store that returns the records for \<^verbatim>\<open>A\<close> and \<^verbatim>\<open>B\<close>
  and no edges; a store that answers \<^verbatim>\<open>connectNodes\<close> with an edge from \<^verbatim>\<open>A\<close> to a
  node \<^verbatim>\<open>Z\<close> that is not in the graph; and the store of the specification's scenario
  for \<^verbatim>\<open>Home\<close>.
\<close>

definition ex_store_bad :: datastore where
  "ex_store_bad = \<lparr>ds_storeId = ''remote'', getNeighbourhood = (\<lambda>ids. Inl Rejected),
                   connectNodes = (\<lambda>allNodes newNodes. Inl Rejected)\<rparr>"

definition ex_store_good :: datastore where
  "ex_store_good = \<lparr>ds_storeId = ''core'', getNeighbourhood = (\<lambda>ids. Inr [ex_visited, ex_B1]),
                    connectNodes = (\<lambda>allNodes newNodes. Inr [])\<rparr>"

definition ex_edge_AZ :: eledef where
  "ex_edge_AZ = \<lparr>d_id = ''core:A->Z'', d_ends = Some (''core:A'', ''core:Z''),
                 d_classes = None, d_data = Map.empty\<rparr>"

definition ex_store_dangling :: datastore where
  "ex_store_dangling =
     \<lparr>ds_storeId = ''core'', getNeighbourhood = (\<lambda>ids. Inr [ex_visited, ex_B1]),
      connectNodes = (\<lambda>allNodes newNodes. Inr [ex_edge_AZ])\<rparr>"





section \<open>Facts about the model\<close>

subsection \<open>Facts about splitting and joining\<close>

lemma split_str_not_Nil: "split_str c s \<noteq> []"
  by (induction s) (auto split: list.splits)

lemma split_str_no_sep: "c \<notin> set s \<Longrightarrow> split_str c s = [s]"
  by (induction s) auto

lemma split_str_prefix:
  "c \<notin> set s \<Longrightarrow> split_str c (s @ c # t) = s # split_str c t"
  by (induction s) auto

lemma join_split_str: "join_str [c] (split_str c t) = t"
proof (induction t)
  case Nil
  show ?case by simp
next
  case (Cons x xs)
  show ?case
  proof (cases "x = c")
    case True
    obtain w ws where sp: "split_str c xs = w # ws"
      using split_str_not_Nil [of c xs] by (cases "split_str c xs") auto
    from Cons sp True show ?thesis by simp
  next
    case False
    obtain w ws where sp: "split_str c xs = w # ws"
      using split_str_not_Nil [of c xs] by (cases "split_str c xs") auto
    from Cons sp False show ?thesis by (cases ws) auto
  qed
qed

lemma fromId_toString_parts:
  "CHR '':'' \<notin> set s \<Longrightarrow> fromId (s @ '':'' @ i) = \<lparr>id = i, storeId = s\<rparr>"
  using split_str_prefix [of "CHR '':''" s i] join_split_str [of "CHR '':''" i]
  by (simp add: fromId_def)

subsection \<open>Facts about the merge\<close>

lemma merge_existing_eq:
  "merge_existing n e =
     e\<lparr>e_classes := (case d_classes n of None \<Rightarrow> e_classes e
                      | Some cs \<Rightarrow> set cs \<union> (e_classes e \<inter> protected)),
       e_data := e_data e ++ (d_data n |` (- immutableKeys))\<rparr>"
  by (cases "d_classes n")
     (auto simp: merge_existing_def Let_def hasClass_def addClass_def classes_call_def
        data_obj_def isNode_def protected_def CLASS_EXPANDED_def CLASS_PINNED_def
        insert_absorb)

lemma merge_existing_id [simp]: "e_id (merge_existing n e) = e_id e"
  and merge_existing_ends [simp]: "e_ends (merge_existing n e) = e_ends e"
  and merge_existing_selected [simp]: "e_selected (merge_existing n e) = e_selected e"
  by (simp_all add: merge_existing_eq)

lemma apply_all_Nil [simp]: "apply_all [] e = e"
  by (simp add: apply_all_def)

lemma apply_all_Cons:
  "apply_all (n # ns) e = apply_all ns (if d_id n = e_id e then merge_existing n e else e)"
  by (simp add: apply_all_def)

lemma apply_all_id [simp]: "e_id (apply_all L e) = e_id e"
  by (induction L arbitrary: e) (simp_all add: apply_all_Cons)

lemma apply_all_ends [simp]: "e_ends (apply_all L e) = e_ends e"
  by (induction L arbitrary: e) (simp_all add: apply_all_Cons)

lemma apply_all_selected [simp]: "e_selected (apply_all L e) = e_selected e"
  by (induction L arbitrary: e) (simp_all add: apply_all_Cons)

lemma has_id_upd [simp]: "(\<And>e. e_id (f e) = e_id e) \<Longrightarrow> has_id (upd i f g) = has_id g"
  by (auto simp: has_id_def upd_def fun_eq_iff image_iff)

lemma has_id_map_apply [simp]: "has_id (map (apply_all L) g) = has_id g"
  by (auto simp: has_id_def fun_eq_iff image_iff)

lemma upd_absent: "\<not> has_id g i \<Longrightarrow> upd i f g = g"
  by (induction g) (auto simp: has_id_def upd_def)

lemma merge_loop_eq:
  "merge_loop L (g, a, m) =
     (map (apply_all L) g, a @ filter (\<lambda>n. \<not> has_id g (d_id n)) L,
      fold (\<lambda>n m. if has_id g (d_id n) then coll_merge m [d_id n] else m) L m)"
proof (induction L arbitrary: g a m)
  case Nil
  show ?case by simp
next
  case (Cons n ns)
  show ?case
  proof (cases "has_id g (d_id n)")
    case True
    have "map (apply_all ns) (upd (d_id n) (merge_existing n) g) = map (apply_all (n # ns)) g"
      by (simp add: upd_def apply_all_Cons)
    with True Cons show ?thesis by simp
  next
    case False
    then have "\<And>e. e \<in> set g \<Longrightarrow> d_id n \<noteq> e_id e"
      by (auto simp: has_id_def)
    then have "map (apply_all (n # ns)) g = map (apply_all ns) g"
      by (simp add: apply_all_Cons)
    with False Cons show ?thesis by simp
  qed
qed

lemma metrics_length [simp]: "length (snd (metrics d es)) = length es"
  by (induction es) (auto simp: Let_def split: prod.splits option.splits jsval.splits)

lemma eq_except_refl [simp]: "eq_except K e e"
  by (simp add: eq_except_def)

lemma metrics_eq_except: "list_all2 (eq_except metric_keys) es (snd (metrics d es))"
  by (induction es)
     (auto simp: Let_def eq_except_def metric_keys_def data_set_def list.rel_refl
        split: prod.splits option.splits jsval.splits)

lemma find_rel:
  assumes "list_all2 R xs ys" and "\<And>x y. R x y \<Longrightarrow> e_id y = e_id x"
  shows "rel_option R (find (\<lambda>e. e_id e = i) xs) (find (\<lambda>e. e_id e = i) ys)"
  using assms(1)
proof (induction rule: list_all2_induct)
  case Nil
  show ?case by simp
next
  case (Cons x xs y ys)
  then show ?case using assms(2) [of x y] by auto
qed

lemma getElementById_metrics:
  "rel_option (eq_except metric_keys) (getElementById i es) (getElementById i (snd (metrics d es)))"
  unfolding getElementById_def
  by (rule find_rel [OF metrics_eq_except]) (simp add: eq_except_def)

lemma classes_of_metrics [simp]: "classes_of (snd (metrics d es)) i = classes_of es i"
  using getElementById_metrics [of i es d]
  by (auto simp: classes_of_def eq_except_def elim!: option.rel_cases)

lemma data_of_metrics:
  "k \<notin> metric_keys \<Longrightarrow> data_of (snd (metrics d es)) i k = data_of es i k"
  using getElementById_metrics [of i es d]
  by (auto simp: data_of_def eq_except_def elim!: option.rel_cases)

lemma map_list_all2_eq:
  assumes "list_all2 R xs ys" and "\<And>x y. R x y \<Longrightarrow> f y = f x"
  shows "map f ys = map f xs"
  using assms(1) by (induction rule: list_all2_induct) (auto simp: assms(2))

lemma map_e_id_metrics [simp]: "map e_id (snd (metrics d es)) = map e_id es"
  by (rule map_list_all2_eq [OF metrics_eq_except]) (simp add: eq_except_def)

lemma map_e_ends_metrics [simp]: "map e_ends (snd (metrics d es)) = map e_ends es"
  by (rule map_list_all2_eq [OF metrics_eq_except]) (simp add: eq_except_def)

lemma has_id_metrics [simp]: "has_id (snd (metrics d es)) = has_id es"
  by (simp add: has_id_def fun_eq_iff)

lemma getElementById_append:
  "has_id g i \<Longrightarrow> getElementById i (g @ xs) = getElementById i g"
  by (induction g) (auto simp: has_id_def getElementById_def)

lemma getElementById_map_apply:
  "getElementById i (map (apply_all L) g) = map_option (apply_all L) (getElementById i g)"
  by (induction g) (auto simp: getElementById_def)

lemma getElementById_Some_id: "getElementById i g = Some e \<Longrightarrow> e_id e = i"
  by (induction g) (auto simp: getElementById_def split: if_splits)

lemma getElementById_has_id: "has_id g i \<Longrightarrow> \<exists>e. getElementById i g = Some e"
  by (induction g) (auto simp: getElementById_def has_id_def)

lemma apply_all_protected:
  assumes "\<forall>n\<in>set L. d_id n = e_id e \<longrightarrow> def_tags n \<inter> protected = {}"
  shows "e_classes (apply_all L e) \<inter> protected = e_classes e \<inter> protected"
  using assms
proof (induction L arbitrary: e)
  case Nil
  show ?case by simp
next
  case (Cons n ns)
  show ?case
  proof (cases "d_id n = e_id e")
    case True
    with Cons.prems have tags: "def_tags n \<inter> protected = {}" by simp
    have step: "e_classes (merge_existing n e) \<inter> protected = e_classes e \<inter> protected"
      using tags by (cases "d_classes n") (auto simp: merge_existing_eq def_tags_def)
    have "e_classes (apply_all ns (merge_existing n e)) \<inter> protected
            = e_classes (merge_existing n e) \<inter> protected"
      using Cons.prems by (intro Cons.IH) simp
    with step True show ?thesis by (simp add: apply_all_Cons)
  next
    case False
    with Cons show ?thesis by (simp add: apply_all_Cons)
  qed
qed










lemma metric_node_id [simp]: "e_id (metric_node d e) = e_id e"
  and metric_node_ends [simp]: "e_ends (metric_node d e) = e_ends e"
  by (auto simp: metric_node_def Let_def data_set_def split: option.splits jsval.splits)







lemma shape_metrics [simp]: "shape (snd (metrics d es)) = shape es"
  by (simp add: shape_def)

lemma shape_map:
  "(\<And>e. e_id (f e) = e_id e) \<Longrightarrow> (\<And>e. e_ends (f e) = e_ends e) \<Longrightarrow> shape (map f g) = shape g"
  by (induction g) (simp_all add: shape_def)

lemma shape_map_apply [simp]: "shape (map (apply_all L) g) = shape g"
  by (rule shape_map) simp_all


lemma isNode_new_ele [simp]: "isNode (new_ele n) = isNodeDef n"
  by (simp add: isNode_def isNodeDef_def new_ele_def)

lemma e_id_new_ele [simp]: "e_id (new_ele n) = d_id n"
  by (simp add: new_ele_def)



subsection \<open>Facts about \<open>cy.add\<close> and the result of the merge\<close>

lemma has_id_append: "has_id (g @ xs) i = (has_id g i \<or> has_id xs i)"
  by (auto simp: has_id_def)

lemma restorable_cong: "has_id g = has_id g' \<Longrightarrow> restorable g n = restorable g' n"
  by (auto simp: restorable_def split: option.splits)

lemma has_id_snoc_cong:
  "has_id g = has_id g' \<Longrightarrow> has_id (g @ [x]) = has_id (g' @ [x])"
  by (simp add: fun_eq_iff has_id_append)

lemma taken_cong: "has_id g = has_id g' \<Longrightarrow> taken E g = taken E g'"
proof (induction E arbitrary: g g')
  case Nil
  show ?case by simp
next
  case (Cons n ns)
  have "taken ns (g @ [new_ele n]) = taken ns (g' @ [new_ele n])"
    using Cons.prems by (intro Cons.IH has_id_snoc_cong)
  with Cons.prems show ?case by (simp add: restorable_cong [of g g'])
qed

lemma restore_eq:
  "restore E g = (if taken E g = E then Inr () else Inl CyError, g @ map new_ele (taken E g))"
proof (induction E arbitrary: g)
  case Nil
  show ?case by simp
next
  case (Cons n ns)
  then show ?case by simp
qed




lemma add_eq:
  "add A g =
     (if taken (elems (create A [] g)) g = elems (create A [] g)
      then Inr (map d_id (create A [] g)) else Inl CyError,
      g @ map new_ele (taken (elems (create A [] g)) g))"
  by (simp add: add_def Let_def elems_def [symmetric] restore_eq)

lemma set_elems [simp]: "set (elems C) = set C"
  by (auto simp: elems_def)

lemma mergeToGraph_eq:
  fixes L g
  defines "g1 \<equiv> map (apply_all L) g"
  defines "E \<equiv> elems (create (filter (\<lambda>n. \<not> has_id g (d_id n)) L) [] g1)"
  defines "G1 \<equiv> g1 @ map new_ele (taken E g1)"
  shows "snd (mergeToGraph L b g) = (if taken E g1 = E then snd (metrics (degree G1) G1) else G1)"
    and "fst (mergeToGraph L b g) = Inl CyError \<or> taken E g1 = E"
    and "taken E g1 = E \<Longrightarrow> isl (fst (mergeToGraph L b g)) = isl (fst (metrics (degree G1) G1))"
  unfolding g1_def E_def G1_def
  by (simp_all add: mergeToGraph_def merge_loop_eq add_eq onGraphChanged_def
      split: prod.splits sum.splits)

lemma getElementById_mergeToGraph:
  assumes "getElementById i g = Some e"
  shows "rel_option (eq_except metric_keys) (Some (apply_all L e))
           (getElementById i (snd (mergeToGraph L b g)))"
proof -
  define g1 where "g1 = map (apply_all L) g"
  define E where "E = elems (create (filter (\<lambda>n. \<not> has_id g (d_id n)) L) [] g1)"
  define G1 where "G1 = g1 @ map new_ele (taken E g1)"
  have "has_id g1 i"
    using assms by (auto simp: g1_def has_id_def getElementById_def find_Some_iff)
  then have G: "getElementById i G1 = Some (apply_all L e)"
    using assms by (simp add: G1_def getElementById_append) (simp add: g1_def getElementById_map_apply)
  show ?thesis
  proof (cases "taken E g1 = E")
    case True
    then have "snd (mergeToGraph L b g) = snd (metrics (degree G1) G1)"
      using mergeToGraph_eq(1) [of L b g] by (simp add: g1_def E_def G1_def)
    then show ?thesis
      using getElementById_metrics [of i G1 "degree G1"] G by simp
  next
    case False
    then have "snd (mergeToGraph L b g) = G1"
      using mergeToGraph_eq(1) [of L b g] by (simp add: g1_def E_def G1_def)
    then show ?thesis using G by simp
  qed
qed

lemma classes_of_mergeToGraph:
  assumes "getElementById i g = Some e"
  shows "classes_of (snd (mergeToGraph L b g)) i = e_classes (apply_all L e)"
  using getElementById_mergeToGraph [OF assms, of L b]
  by (auto simp: classes_of_def eq_except_def elim!: option.rel_cases)











lemma elems_Nil: "elems C = [] \<Longrightarrow> C = []"
  using set_elems [of C] by (metis set_empty)









subsection \<open>Facts about hiding and selection\<close>

lemma neighbour_in_neighborhood:
  assumes "c \<in> set ns" and "has_node g c" and "e \<in> set g" and "e_ends e = Some (s, t)"
    and "(s = b \<and> t = c) \<or> (s = c \<and> t = b)" and "b \<noteq> c"
  shows "b \<in> set (neighborhood g ns)"
proof -
  define F where "F = (\<lambda>i (e::ele). case e_ends e of None \<Rightarrow> []
                       | Some (s, t) \<Rightarrow> [if i = s then t else s, e_id e])"
  have nb: "neighborhood g ns =
      concat (map (\<lambda>i. concat (map (F i) (connectedEdges g i))) (filter (has_node g) ns))"
    by (simp add: neighborhood_def F_def)
  have 1: "e \<in> set (connectedEdges g c)"
    using assms by (auto simp: connectedEdges_def touches_def)
  have 2: "b \<in> set (F c e)"
    using assms by (auto simp: F_def)
  have 3: "c \<in> set (filter (has_node g) ns)"
    using assms by simp
  from 1 2 have "b \<in> set (concat (map (F c) (connectedEdges g c)))"
    by auto
  with 3 show ?thesis
    unfolding nb by auto
qed

lemma removeClass_not_has [simp]: "\<not> hasClass (removeClass c e) c"
  by (simp add: hasClass_def removeClass_def)

lemma selected_id_iff:
  assumes "distinct (map e_id g)" and "e \<in> set g"
  shows "e_id e \<in> set (map e_id (filter e_selected g)) \<longleftrightarrow> e_selected e"
proof
  assume "e_id e \<in> set (map e_id (filter e_selected g))"
  then obtain x where x: "x \<in> set g" "e_selected x" "e_id x = e_id e" by auto
  have "inj_on e_id (set g)" using assms(1) by (simp add: distinct_map)
  with x assms(2) have "x = e" by (auto dest: inj_onD)
  with x show "e_selected e" by simp
next
  assume "e_selected e"
  with assms(2) show "e_id e \<in> set (map e_id (filter e_selected g))" by auto
qed

lemma invertSelection_flip:
  assumes "distinct (map e_id g)"
  shows "invertSelection g = map (\<lambda>e. e\<lparr>e_selected := \<not> e_selected e\<rparr>) g"
proof -
  define sel where "sel = map e_id (filter e_selected g)"
  define g1 where "g1 = map (\<lambda>e. if e_id e \<in> set sel then unselect e else e) g"
  define comp where "comp = filter (\<lambda>i. i \<notin> set sel) (map e_id g1)"
  have inv: "invertSelection g = map (\<lambda>e. if e_id e \<in> set comp then select e else e) g1"
    by (simp add: invertSelection_def Let_def sel_def g1_def comp_def)
  have ids: "map e_id g1 = map e_id g"
    by (simp add: g1_def unselect_def)
  have sel_iff: "e_id e \<in> set sel \<longleftrightarrow> e_selected e" if "e \<in> set g" for e
    unfolding sel_def using assms that by (rule selected_id_iff)
  have comp_iff: "e_id e \<in> set comp \<longleftrightarrow> \<not> e_selected e" if "e \<in> set g" for e
    using that sel_iff [OF that] by (auto simp: comp_def ids)
  have "map (\<lambda>e. if e_id e \<in> set comp then select e else e) g1
          = map (\<lambda>e. e\<lparr>e_selected := \<not> e_selected e\<rparr>) g"
    unfolding g1_def map_map
    by (rule map_cong [OF refl]) (auto simp: sel_iff comp_iff select_def unselect_def)
  with inv show ?thesis by simp
qed

lemma selectedNodes_invert_selectAll: "selectedNodes (invertSelection (selectAll g)) = []"
proof -
  define g0 where "g0 = selectAll g"
  define sel where "sel = map e_id (filter e_selected g0)"
  define g1 where "g1 = map (\<lambda>e. if e_id e \<in> set sel then unselect e else e) g0"
  define comp where "comp = filter (\<lambda>i. i \<notin> set sel) (map e_id g1)"
  have inv: "invertSelection g0 = map (\<lambda>e. if e_id e \<in> set comp then select e else e) g1"
    by (simp add: invertSelection_def Let_def sel_def g1_def comp_def)
  have node_sel: "e_id e \<in> set sel" if "e \<in> set g0" "isNode e" for e
  proof -
    from that have "e_selected e"
      by (auto simp: g0_def selectAll_def select_def isNode_def split: if_splits)
    with that show ?thesis by (auto simp: sel_def)
  qed
  have "\<not> e_selected x" if "x \<in> set (invertSelection g0)" "isNode x" for x
  proof -
    from that(1) obtain e where e: "e \<in> set g0"
      and x: "x = (let e' = (if e_id e \<in> set sel then unselect e else e)
                   in if e_id e' \<in> set comp then select e' else e')"
      unfolding inv g1_def by (auto simp: Let_def)
    have "isNode e" using that(2) x
      by (auto simp: Let_def isNode_def select_def unselect_def split: if_splits)
    then have s: "e_id e \<in> set sel" using e by (rule node_sel [rotated])
    then have "e_id e \<notin> set comp" by (simp add: comp_def)
    with s x show ?thesis by (simp add: unselect_def)
  qed
  then show ?thesis
    by (auto simp: selectedNodes_def nodes_def g0_def filter_empty_conv)
qed

subsection \<open>Facts about fetching and expanding\<close>

lemma neighbourhood_loop_reject:
  "store \<in> set stores \<Longrightarrow> getNeighbourhood store ids = Inl err
     \<Longrightarrow> \<exists>err'. neighbourhood_loop stores ids acc = Inl err'"
proof (induction stores arbitrary: acc)
  case Nil
  then show ?case by simp
next
  case (Cons s ss)
  show ?case
  proof (cases "getNeighbourhood s ids")
    case (Inl e)
    then show ?thesis by simp
  next
    case (Inr res)
    with Cons.prems have "store \<in> set ss" by auto
    with Cons.IH Cons.prems(2) Inr show ?thesis by simp
  qed
qed

lemma buildEdges_loop_reject:
  "store \<in> set stores \<Longrightarrow> connectNodes store (nodes g) new = Inl err
     \<Longrightarrow> \<exists>err'. buildEdges_loop stores g new acc = Inl err'"
proof (induction stores arbitrary: acc)
  case Nil
  then show ?case by simp
next
  case (Cons s ss)
  show ?case
  proof (cases "connectNodes s (nodes g) new")
    case (Inl e)
    then show ?thesis by simp
  next
    case (Inr res)
    with Cons.prems have "store \<in> set ss" by auto
    with Cons.IH Cons.prems(2) Inr show ?thesis by simp
  qed
qed

lemma sba_refl [simp]: "same_but_active e e"
  by (simp add: same_but_active_def)

lemma sba_trans: "same_but_active a b \<Longrightarrow> same_but_active b c \<Longrightarrow> same_but_active a c"
  by (simp add: same_but_active_def)

lemma sba_addClass: "c \<in> active_classes \<Longrightarrow> same_but_active e (addClass c e)"
  by (auto simp: same_but_active_def addClass_def)

lemma sba_removeClasses: "set cs \<subseteq> active_classes \<Longrightarrow> same_but_active e (removeClasses cs e)"
  by (auto simp: same_but_active_def removeClasses_def)

lemma sba_map: "(\<And>e. same_but_active e (f e)) \<Longrightarrow> list_all2 same_but_active g (map f g)"
  by (simp add: list_all2_map2 list.rel_refl)

lemma sba_list_trans:
  "list_all2 same_but_active xs ys \<Longrightarrow> list_all2 same_but_active ys zs
     \<Longrightarrow> list_all2 same_but_active xs zs"
  by (rule list_all2_trans [of same_but_active same_but_active same_but_active])
     (auto intro: sba_trans)

lemma sba_tag: "c \<in> active_classes \<Longrightarrow>
    list_all2 same_but_active g (map (\<lambda>e. if P e then addClass c e else e) g)"
  by (rule sba_map) (simp add: sba_addClass)

lemma updateActiveFile_rel:
  "list_all2 same_but_active g (updateActiveFile ns b g)"
proof -
  let ?cs = "[''connected-active-file'', ''active-file'', ''inactive-file'']"
  have cs: "set ?cs \<subseteq> active_classes" and c1: "''inactive-file'' \<in> active_classes"
    and c2: "''active-file'' \<in> active_classes"
    and c3: "''connected-active-file'' \<in> active_classes"
    by (simp_all add: active_classes_def)
  have "same_but_active e (if e_id e \<in> set cn then removeClasses ?cs e
                             else addClass ''inactive-file'' (removeClasses ?cs e))" for e cn
    using sba_removeClasses [OF cs, of e]
      sba_trans [OF sba_removeClasses [OF cs, of e] sba_addClass [OF c1, of "removeClasses ?cs e"]]
    by simp
  then have 1: "list_all2 same_but_active g
      (map (\<lambda>e. if e_id e \<in> set cn then removeClasses ?cs e
                 else addClass ''inactive-file'' (removeClasses ?cs e)) g)" for cn
    by (rule sba_map)
  have step: "list_all2 same_but_active g (map (\<lambda>e. if P e then addClass c e else e) xs)"
    if "list_all2 same_but_active g xs" "c \<in> active_classes" for P c xs
    using that(1) sba_tag [OF that(2)] by (rule sba_list_trans)
  show ?thesis
    unfolding updateActiveFile_def Let_def
    by (rule step [OF step [OF step [OF 1 c2] c3] c3])
qed


lemma updateActiveFile_shape [simp]: "shape (updateActiveFile ns b g) = shape g"
proof -
  have "map e_id (updateActiveFile ns b g) = map e_id g"
    by (rule map_list_all2_eq [OF updateActiveFile_rel]) (simp add: same_but_active_def)
  moreover have "map e_ends (updateActiveFile ns b g) = map e_ends g"
    by (rule map_list_all2_eq [OF updateActiveFile_rel]) (simp add: same_but_active_def)
  ultimately show ?thesis by (simp add: shape_def)
qed



lemma shape_tag_expanded [simp]:
  "shape (map (\<lambda>e. if e_id e \<in> set toExpand then addClass CLASS_EXPANDED e else e) g) = shape g"
  by (rule shape_map) (simp_all add: addClass_def)



subsection \<open>Facts about the hover preview\<close>

lemma run_Nil [simp]: "run [] s = s"
  by (simp add: run_def)

lemma run_Cons [simp]: "run (ev # evs) s = run evs (step ev s)"
  by (simp add: run_def)

lemma run_append: "run (xs @ ys) s = run ys (run xs s)"
  by (simp add: run_def)

lemma find_pending: "find (\<lambda>p. fst p = h) ps = Some p \<Longrightarrow> fst p = h \<and> p \<in> set ps"
  by (induction ps) (auto split: if_splits)

lemma handles_fresh_step: "handles_fresh s \<Longrightarrow> handles_fresh (step ev s)"
proof (cases ev)
  case (MouseoverNode i md)
  assume "handles_fresh s"
  with MouseoverNode show ?thesis by (simp add: handles_fresh_def)
next
  case (ReadDone i)
  assume "handles_fresh s"
  with ReadDone show ?thesis
    by (auto simp: handles_fresh_def setTimeout_def less_Suc_eq)
next
  case (MouseoverEdge i ctx)
  assume "handles_fresh s"
  with MouseoverEdge show ?thesis
    by (auto simp: handles_fresh_def setTimeout_def less_Suc_eq)
next
  case (Mouseout i)
  assume "handles_fresh s"
  with Mouseout show ?thesis
    by (auto simp: handles_fresh_def clearTimeout_def split: option.splits)
next
  case (Fire h)
  assume "handles_fresh s"
  with Fire show ?thesis
    by (auto simp: handles_fresh_def split: option.splits)
qed

lemma handles_fresh_run: "handles_fresh s \<Longrightarrow> handles_fresh (run evs s)"
  by (induction evs arbitrary: s) (simp_all add: handles_fresh_step)

lemma handles_fresh_init: "handles_fresh hover_init"
  by (simp add: handles_fresh_def hover_init_def)

lemma cancelled_step:
  assumes "cancelled h s"
  shows "cancelled h (step ev s)" and "opened_by (step ev s) h = opened_by s h"
proof -
  show "cancelled h (step ev s)"
  proof (cases ev)
    case (Fire k)
    with assms show ?thesis by (auto simp: cancelled_def split: option.splits)
  next
    case (Mouseout i)
    with assms show ?thesis
      by (auto simp: cancelled_def clearTimeout_def split: option.splits)
  qed (use assms in \<open>auto simp: cancelled_def setTimeout_def\<close>)
  show "opened_by (step ev s) h = opened_by s h"
  proof (cases ev)
    case (Fire k)
    show ?thesis
    proof (cases "find (\<lambda>p. fst p = k) (pending s)")
      case None
      with Fire show ?thesis by simp
    next
      case (Some p)
      then have "fst p = k" "p \<in> set (pending s)" by (auto dest: find_pending)
      with assms have "fst p \<noteq> h" by (auto simp: cancelled_def)
      with Fire Some show ?thesis by (simp add: opened_by_def)
    qed
  next
    case (Mouseout i)
    then show ?thesis
      by (auto simp: opened_by_def clearTimeout_def split: option.splits)
  qed (auto simp: opened_by_def setTimeout_def)
qed

lemma cancelled_run:
  "cancelled h s \<Longrightarrow> cancelled h (run evs s) \<and> opened_by (run evs s) h = opened_by s h"
  by (induction evs arbitrary: s) (simp_all add: cancelled_step)

lemma mouseout_cancels:
  assumes "handles_fresh s" and "hoverTimeout s i = Some (Some h)"
  shows "cancelled h (step (Mouseout i) s)"
    and "opened_by (step (Mouseout i) s) h = opened_by s h"
  using assms
  by (auto simp: cancelled_def handles_fresh_def clearTimeout_def opened_by_def)

lemma hover_inv_pending: "hover_inv cur s \<Longrightarrow> length (pending s) \<le> 1"
  by (cases cur) (auto simp: hover_inv_def)

lemma hover_inv_Fire: "hover_inv cur s \<Longrightarrow> hover_inv cur (step (Fire h) s)"
  by (cases cur) (auto simp: hover_inv_def split: option.splits if_splits)

lemma hover_inv_setTimeout:
  "hover_inv None s \<Longrightarrow> hover_inv (Some i) (setTimeout i s)"
  by (simp add: hover_inv_def setTimeout_def)

lemma hover_inv_Some: "hover_inv None s \<Longrightarrow> hover_inv (Some i) s"
  by (simp add: hover_inv_def)

lemma hover_inv_Mouseout: "hover_inv (Some x) s \<Longrightarrow> hover_inv None (step (Mouseout x) s)"
  by (auto simp: hover_inv_def clearTimeout_def split: option.splits)

lemma alternating_pending:
  "alternating cur evs \<Longrightarrow> hover_inv cur s \<Longrightarrow> length (pending (run evs s)) \<le> 1"
proof (induction cur evs arbitrary: s rule: alternating.induct)
  case (1 cur)
  then show ?case using hover_inv_pending [of cur s] by simp
next
  case (2 cur h evs)
  then show ?case by (simp add: hover_inv_Fire del: step.simps)
next
  case (3 i md evs)
  show ?case
  proof (cases "storeId (fromId i) = ''core'' \<and> md")
    case True
    with "3.prems"(1) obtain evs' where evs: "evs = ReadDone i # evs'"
      and alt: "alternating (Some i) evs'"
      by (auto split: list.splits event.splits)
    have r: "reading s = []" using "3.prems"(2) by (simp add: hover_inv_def)
    then have eq: "s\<lparr>reading := []\<rparr> = s" by (cases s) simp
    have st: "step (ReadDone i) (step (MouseoverNode i md) s) = setTimeout i s"
      using True by (simp add: r eq)
    have "hover_inv (Some i) (setTimeout i s)"
      using "3.prems"(2) by (rule hover_inv_setTimeout)
    with "3.IH"(1) [OF True evs refl alt] st evs show ?thesis
      by (simp del: step.simps)
  next
    case False
    with "3.prems" have "alternating (Some i) evs" by simp
    moreover have "hover_inv (Some i) (step (MouseoverNode i md) s)"
      using False "3.prems"(2) by (auto simp: hover_inv_Some)
    ultimately show ?thesis using "3.IH"(2) [OF False] by (simp del: step.simps)
  qed
next
  case (4 i ctx evs)
  have "hover_inv (Some i) (step (MouseoverEdge i ctx) s)"
    using "4.prems"(2) by (simp add: hover_inv_Some hover_inv_setTimeout)
  with 4 show ?case by (simp del: step.simps)
next
  case (5 x i evs)
  then have "i = x" "alternating None evs" by simp_all
  moreover have "hover_inv None (step (Mouseout x) s)"
    using "5.prems"(2) by (rule hover_inv_Mouseout)
  ultimately show ?case using "5.IH" by (simp del: step.simps)
qed simp_all

section \<open>Claims about the identity scheme\<close>

text \<open>
  C2 (as stated): for every pair of strings (localId, storeId), decoding the encoded
  identity gives back exactly (localId, storeId). This fails when the store id itself
  contains the separator: \<^verbatim>\<open>new VizId('c', 'a:b').toString()\<close> is \<^verbatim>\<open>'a:b:c'\<close>, which
  \<^verbatim>\<open>fromId\<close> splits at the first separator into store id \<^verbatim>\<open>'a'\<close> and id \<^verbatim>\<open>'b:c'\<close>.
\<close>

theorem C2_roundtrip_counterexample:
  "fromId (toString \<lparr>id = ''c'', storeId = ''a:b''\<rparr>) = \<lparr>id = ''b:c'', storeId = ''a''\<rparr>
   \<and> fromId (toString \<lparr>id = ''c'', storeId = ''a:b''\<rparr>) \<noteq> \<lparr>id = ''c'', storeId = ''a:b''\<rparr>"
  by (simp add: fromId_def toString_def)

text \<open>
  C2 (amended): for every identity whose store id does not contain the separator \<^verbatim>\<open>:\<close>,
  decoding the encoded identity gives back exactly the identity, whatever the local id is
  (it may contain \<^verbatim>\<open>:\<close>): decoding splits at the first separator only.
\<close>

theorem C2_roundtrip:
  "CHR '':'' \<notin> set (storeId v) \<Longrightarrow> fromId (toString v) = (v :: VizId)"
  using fromId_toString_parts [of "storeId v" "id v"]
  by (simp add: toString_def)

theorem C2_roundtrip_witness:
  "CHR '':'' \<notin> set (storeId \<lparr>id = ''a:b::c'', storeId = ''core''\<rparr>)
   \<and> toString \<lparr>id = ''a:b::c'', storeId = ''core''\<rparr> = ''core:a:b::c''
   \<and> fromId ''core:a:b::c'' = \<lparr>id = ''a:b::c'', storeId = ''core''\<rparr>"
  using C2_roundtrip [of "\<lparr>id = ''a:b::c'', storeId = ''core''\<rparr>"]
  by (simp add: toString_def)

text \<open>
  C10: decoding a string that contains no \<^verbatim>\<open>:\<close> does not fail: the result has the whole
  input as its store id and the empty string as its local id. \<open>fromId\<close> is a total
  function on all strings.
\<close>

theorem C10_fromId_no_separator:
  "CHR '':'' \<notin> set s \<Longrightarrow> fromId s = \<lparr>id = [], storeId = s\<rparr>"
  by (simp add: fromId_def split_str_no_sep)

theorem C10_fromId_no_separator_witness:
  "CHR '':'' \<notin> set ''Home'' \<and> fromId ''Home'' = \<lparr>id = [], storeId = ''Home''\<rparr>
   \<and> fromId [] = \<lparr>id = [], storeId = []\<rparr>"
  using C10_fromId_no_separator [of "''Home''"] C10_fromId_no_separator [of "[]"]
  by simp


section \<open>Claims about the merge\<close>

text \<open>
  C1: for a node that is in the graph, merging a list of records in which every record
  for that node's id is free of the tags \<^verbatim>\<open>pinned\<close> and \<^verbatim>\<open>expanded\<close> leaves both tags
  on the node as they were: the node carries \<^verbatim>\<open>pinned\<close> afterwards exactly when it did
  before, and likewise \<^verbatim>\<open>expanded\<close>. This holds whether or not \<^verbatim>\<open>cy.add\<close> or
  \<^verbatim>\<open>onGraphChanged\<close> throws at the end of the merge.
\<close>

theorem C1_protected_tags_preserved:
  assumes "has_id g i"
    and "\<forall>n\<in>set elements. d_id n = i \<longrightarrow> CLASS_PINNED \<notin> def_tags n \<and> CLASS_EXPANDED \<notin> def_tags n"
  shows "(CLASS_PINNED \<in> classes_of (snd (mergeToGraph elements batch g)) i
            \<longleftrightarrow> CLASS_PINNED \<in> classes_of g i)
       \<and> (CLASS_EXPANDED \<in> classes_of (snd (mergeToGraph elements batch g)) i
            \<longleftrightarrow> CLASS_EXPANDED \<in> classes_of g i)"
proof -
  obtain e where e: "getElementById i g = Some e"
    using assms(1) getElementById_has_id by blast
  then have ei: "e_id e = i" by (rule getElementById_Some_id)
  have "\<forall>n\<in>set elements. d_id n = e_id e \<longrightarrow> def_tags n \<inter> protected = {}"
    using assms(2) ei by (auto simp: protected_def)
  then have "e_classes (apply_all elements e) \<inter> protected = e_classes e \<inter> protected"
    by (rule apply_all_protected)
  moreover have "classes_of g i = e_classes e"
    using e by (simp add: classes_of_def)
  ultimately show ?thesis
    using classes_of_mergeToGraph [OF e, of elements batch]
    by (auto simp: protected_def)
qed

text \<open>
  The scenario of the specification: \<^verbatim>\<open>A\<close> tagged \<^verbatim>\<open>{pinned, expanded}\<close>, re-merged
  with a record that carries only \<^verbatim>\<open>visited\<close>, ends with all three tags.
\<close>

theorem C1_protected_tags_preserved_witness:
  "has_id [ex_A] ''core:A''
   \<and> classes_of [ex_A] ''core:A'' = {''pinned'', ''expanded''}
   \<and> def_tags ex_visited = {''visited''}
   \<and> classes_of (snd (mergeToGraph [ex_visited] True [ex_A])) ''core:A''
       = {''pinned'', ''expanded'', ''visited''}
   \<and> CLASS_PINNED \<in> classes_of (snd (mergeToGraph [ex_visited] True [ex_A])) ''core:A''
   \<and> CLASS_EXPANDED \<in> classes_of (snd (mergeToGraph [ex_visited] True [ex_A])) ''core:A''"
proof -
  have a: "has_id [ex_A] ''core:A''"
    by (simp add: has_id_def ex_A_def)
  have b: "\<forall>n\<in>set [ex_visited]. d_id n = ''core:A'' \<longrightarrow>
             CLASS_PINNED \<notin> def_tags n \<and> CLASS_EXPANDED \<notin> def_tags n"
    by (simp add: def_tags_def ex_visited_def CLASS_PINNED_def CLASS_EXPANDED_def)
  have c: "classes_of [ex_A] ''core:A'' = {''pinned'', ''expanded''}"
    by (simp add: classes_of_def getElementById_def ex_A_def)
  have d: "def_tags ex_visited = {''visited''}"
    by (simp add: def_tags_def ex_visited_def)
  have e: "classes_of (snd (mergeToGraph [ex_visited] True [ex_A])) ''core:A''
             = {''pinned'', ''expanded'', ''visited''}"
    by code_simp
  show ?thesis
    using C1_protected_tags_preserved [OF a b, of True] a c d e
    by (simp add: CLASS_PINNED_def CLASS_EXPANDED_def)
qed








section \<open>Claims about hiding and selection\<close>

text \<open>
  C6: if a node \<^verbatim>\<open>B\<close> of the graph has a neighbour \<^verbatim>\<open>C\<close> (an edge between them, in
  either direction) and \<^verbatim>\<open>C\<close> is among the nodes removed by \<^verbatim>\<open>removeNodes\<close> while \<^verbatim>\<open>B\<close>
  is not, then \<^verbatim>\<open>B\<close> is still a node of the graph afterwards and no longer carries
  \<^verbatim>\<open>expanded\<close>. This covers a node that is expanded solely because of \<^verbatim>\<open>C\<close>, and a node
  all of whose neighbours are removed.
\<close>

theorem C6_remove_clears_expanded:
  assumes "has_node g b" and "b \<notin> set ns"
    and "c \<in> set ns" and "has_node g c"
    and "e \<in> set g" and "e_ends e = Some (s, t)"
    and "(s = b \<and> t = c) \<or> (s = c \<and> t = b)"
  shows "has_node (snd (removeNodes ns g)) b
       \<and> (\<forall>x\<in>set (snd (removeNodes ns g)). e_id x = b \<and> isNode x \<longrightarrow> \<not> hasClass x CLASS_EXPANDED)"
proof -
  have bc: "b \<noteq> c" using assms(2,3) by auto
  have nb: "b \<in> set (neighborhood g ns)"
    using assms(3-7) bc by (rule neighbour_in_neighborhood)
  define h where "h = (\<lambda>e. if e_id e \<in> set (map e_id (getExpanded g))
                            \<and> e_id e \<in> set (neighborhood g ns)
                         then removeClass ''expanded'' e else e)"
  have g': "snd (removeNodes ns g) = remove ns (map h g)"
    by (simp add: removeNodes_def Let_def h_def)
  have h_id: "e_id (h x) = e_id x" and h_ends: "e_ends (h x) = e_ends x" for x
    by (simp_all add: h_def removeClass_def)
  have h_exp: "\<not> hasClass (h x) CLASS_EXPANDED" if "x \<in> set g" "e_id x = b" "isNode x" for x
  proof (cases "hasClass x CLASS_EXPANDED")
    case True
    with that have "x \<in> set (getExpanded g)" by (simp add: getExpanded_def nodes_def)
    with that nb have "h x = removeClass ''expanded'' x" by (auto simp: h_def)
    then show ?thesis by (simp add: CLASS_EXPANDED_def)
  next
    case False
    then show ?thesis by (simp add: h_def hasClass_def removeClass_def)
  qed
  obtain y where y: "y \<in> set g" "isNode y" "e_id y = b"
    using assms(1) by (auto simp: has_node_def)
  have "h y \<in> set (remove ns (map h g))"
    using y assms(2) by (auto simp: remove_def h_id touches_def h_ends isNode_def list_ex_iff)
  then have "has_node (remove ns (map h g)) b"
    using y by (auto simp: has_node_def isNode_def h_ends h_id image_iff intro!: bexI [of _ "h y"])
  moreover have "\<not> hasClass x CLASS_EXPANDED"
    if "x \<in> set (remove ns (map h g))" "e_id x = b" "isNode x" for x
  proof -
    from that(1) obtain z where z: "z \<in> set g" "x = h z" by (auto simp: remove_def)
    with that have "e_id z = b" "isNode z" by (simp_all add: h_id isNode_def h_ends)
    with z h_exp show ?thesis by simp
  qed
  ultimately show ?thesis unfolding g' by blast
qed

theorem C6_remove_clears_expanded_witness:
  "has_node [ex_B, ex_C, ex_BC] ''core:B'' \<and> ''core:B'' \<notin> set [''core:C'']
   \<and> has_node [ex_B, ex_C, ex_BC] ''core:C''
   \<and> e_ends ex_BC = Some (''core:B'', ''core:C'')
   \<and> CLASS_EXPANDED \<in> classes_of [ex_B, ex_C, ex_BC] ''core:B''
   \<and> has_node (snd (removeNodes [''core:C''] [ex_B, ex_C, ex_BC])) ''core:B''
   \<and> map e_id (snd (removeNodes [''core:C''] [ex_B, ex_C, ex_BC])) = [''core:B'']
   \<and> CLASS_EXPANDED \<notin> classes_of (snd (removeNodes [''core:C''] [ex_B, ex_C, ex_BC])) ''core:B''"
proof -
  have a: "has_node [ex_B, ex_C, ex_BC] ''core:B''" by code_simp
  have b: "''core:B'' \<notin> set [''core:C'']" by simp
  have c: "''core:C'' \<in> set [''core:C'']" by simp
  have d: "has_node [ex_B, ex_C, ex_BC] ''core:C''" by code_simp
  have e: "ex_BC \<in> set [ex_B, ex_C, ex_BC]" by simp
  have f: "e_ends ex_BC = Some (''core:B'', ''core:C'')" by (simp add: ex_BC_def)
  have g: "(''core:B'' = ''core:B'' \<and> ''core:C'' = ''core:C'')
           \<or> (''core:B'' = ''core:C'' \<and> ''core:C'' = ''core:B'')" by simp
  note t = C6_remove_clears_expanded [OF a b c d e f g]
  have h: "CLASS_EXPANDED \<in> classes_of [ex_B, ex_C, ex_BC] ''core:B''" by code_simp
  have i: "map e_id (snd (removeNodes [''core:C''] [ex_B, ex_C, ex_BC])) = [''core:B'']"
    by code_simp
  have j: "CLASS_EXPANDED \<notin> classes_of (snd (removeNodes [''core:C''] [ex_B, ex_C, ex_BC])) ''core:B''"
    by code_simp
  from t a b d f h i j show ?thesis by blast
qed

text \<open>
  C8: the selection is the set of selected nodes, \<^verbatim>\<open>nodes(':selected')\<close>. On every graph
  (ids in a graph are unique), inverting the selection twice gives back the graph as
  it was, so the selection is restored exactly; and after \<^verbatim>\<open>selectAll\<close> followed by
  \<^verbatim>\<open>invertSelection\<close> the selection is empty.
\<close>

theorem C8_selection_laws:
  assumes "distinct (map e_id g)"
  shows "invertSelection (invertSelection g) = g
       \<and> selectedNodes (invertSelection (selectAll g)) = []"
proof -
  let ?flip = "\<lambda>e::ele. e\<lparr>e_selected := \<not> e_selected e\<rparr>"
  have 1: "invertSelection g = map ?flip g"
    using assms by (rule invertSelection_flip)
  have "distinct (map e_id (map ?flip g))"
    using assms by (simp add: o_def)
  then have 2: "invertSelection (map ?flip g) = map ?flip (map ?flip g)"
    by (rule invertSelection_flip)
  have "map ?flip (map ?flip g) = g"
    by (induction g) simp_all
  with 1 2 have "invertSelection (invertSelection g) = g" by simp
  then show ?thesis by (simp add: selectedNodes_invert_selectAll)
qed

theorem C8_selection_laws_witness:
  "distinct (map e_id [ex_B, ex_C, ex_BC])
   \<and> map e_selected [ex_B, ex_C, ex_BC] = [False, True, False]
   \<and> map e_selected (invertSelection [ex_B, ex_C, ex_BC]) = [True, False, True]
   \<and> invertSelection (invertSelection [ex_B, ex_C, ex_BC]) = [ex_B, ex_C, ex_BC]
   \<and> selectedNodes (invertSelection (selectAll [ex_B, ex_C, ex_BC])) = []"
proof -
  have a: "distinct (map e_id [ex_B, ex_C, ex_BC])" by code_simp
  have b: "map e_selected [ex_B, ex_C, ex_BC] = [False, True, False]" by code_simp
  have c: "map e_selected (invertSelection [ex_B, ex_C, ex_BC]) = [True, False, True]" by code_simp
  from C8_selection_laws [OF a] a b c show ?thesis by blast
qed

text \<open>
  The selection flag of an edge is outside the selection: \<^verbatim>\<open>selectAll\<close> selects nodes
  only, \<^verbatim>\<open>invertSelection\<close> flips the flag of every element, so here the edge carries
  the flag after the two calls while no node does.
\<close>

lemma invertSelection_flips_edges:
  "map e_selected [ex_B, ex_C, ex_BC] = [False, True, False]
   \<and> map e_selected (invertSelection (selectAll [ex_B, ex_C, ex_BC])) = [False, False, True]
   \<and> map e_id (filter e_selected (invertSelection (selectAll [ex_B, ex_C, ex_BC])))
       = [''core:B->C'']"
  by code_simp

section \<open>Claims about fetching and expanding\<close>

text \<open>
  C3 (as stated): a rejection by one data store aborts only that store's contribution,
  the contributions of the others are still merged and the operation completes with
  partial results. This fails: the loops of \<^verbatim>\<open>neighbourhood\<close> and \<^verbatim>\<open>buildEdges\<close> await
  each store without a \<^verbatim>\<open>try\<close>, so the rejection leaves the loop. With a store that
  answers and a store that rejects, \<^verbatim>\<open>neighbourhood\<close> rejects, \<^verbatim>\<open>expand\<close> rejects and the
  graph keeps its one node; with the answering store alone the node \<^verbatim>\<open>B\<close> is merged.
\<close>

theorem C3_partial_results_counterexample:
  "getNeighbourhood ex_store_good (map fromId [''core:A'']) = Inr [ex_visited, ex_B1]
   \<and> neighbourhood [ex_store_good, ex_store_bad] (map fromId [''core:A'']) = Inl Rejected
   \<and> fst (expand [ex_store_good, ex_store_bad] [''core:A''] [ex_A]) = Inl Rejected
   \<and> map e_id (snd (expand [ex_store_good, ex_store_bad] [''core:A''] [ex_A])) = [''core:A'']
   \<and> map e_id (snd (expand [ex_store_good] [''core:A''] [ex_A])) = [''core:A'', ''core:B'']"
proof -
  have a: "getNeighbourhood ex_store_good (map fromId [''core:A'']) = Inr [ex_visited, ex_B1]"
    by (simp add: ex_store_good_def)
  have b: "neighbourhood [ex_store_good, ex_store_bad] (map fromId [''core:A'']) = Inl Rejected"
    by (simp add: neighbourhood_def ex_store_good_def ex_store_bad_def)
  have c: "fst (expand [ex_store_good, ex_store_bad] [''core:A''] [ex_A]) = Inl Rejected"
    by code_simp
  have d: "map e_id (snd (expand [ex_store_good, ex_store_bad] [''core:A''] [ex_A])) = [''core:A'']"
    by code_simp
  have e: "map e_id (snd (expand [ex_store_good] [''core:A''] [ex_A])) = [''core:A'', ''core:B'']"
    by code_simp
  from a b c d e show ?thesis by blast
qed

text \<open>
  C3 (amended): when the view fetches a neighbourhood or edges by asking every
  registered store, a rejection by one of the stores rejects the whole fetch:
  \<^verbatim>\<open>neighbourhood\<close> (and \<^verbatim>\<open>buildEdges\<close>) returns no records at all, and an \<^verbatim>\<open>expand\<close> whose
  neighbourhood fetch is rejected is rejected with the graph unchanged.
\<close>

theorem C3_rejection_aborts_fetch:
  assumes "store \<in> set stores"
  shows "(getNeighbourhood store (map fromId toExpand) = Inl err \<longrightarrow>
            (\<exists>err'. neighbourhood stores (map fromId toExpand) = Inl err'
                  \<and> expand stores toExpand g = (Inl err', g)))
       \<and> (connectNodes store (nodes g) newNodes = Inl err \<longrightarrow>
            (\<exists>err'. buildEdges stores g newNodes = Inl err'))"
proof (intro conjI impI)
  assume "getNeighbourhood store (map fromId toExpand) = Inl err"
  with assms obtain err' where "neighbourhood stores (map fromId toExpand) = Inl err'"
    unfolding neighbourhood_def using neighbourhood_loop_reject by blast
  then show "\<exists>err'. neighbourhood stores (map fromId toExpand) = Inl err'
                  \<and> expand stores toExpand g = (Inl err', g)"
    by (simp add: expand_def)
next
  assume "connectNodes store (nodes g) newNodes = Inl err"
  with assms show "\<exists>err'. buildEdges stores g newNodes = Inl err'"
    unfolding buildEdges_def using buildEdges_loop_reject by blast
qed

theorem C3_rejection_aborts_fetch_witness:
  "ex_store_bad \<in> set [ex_store_good, ex_store_bad]
   \<and> getNeighbourhood ex_store_bad (map fromId [''core:A'']) = Inl Rejected
   \<and> connectNodes ex_store_bad (nodes [ex_A]) [] = Inl Rejected
   \<and> (\<exists>err'. neighbourhood [ex_store_good, ex_store_bad] (map fromId [''core:A'']) = Inl err'
          \<and> expand [ex_store_good, ex_store_bad] [''core:A''] [ex_A] = (Inl err', [ex_A]))
   \<and> (\<exists>err'. buildEdges [ex_store_good, ex_store_bad] [ex_A] [] = Inl err')"
proof -
  have a: "ex_store_bad \<in> set [ex_store_good, ex_store_bad]" by simp
  have b: "getNeighbourhood ex_store_bad (map fromId [''core:A'']) = Inl Rejected"
    by (simp add: ex_store_bad_def)
  have c: "connectNodes ex_store_bad (nodes [ex_A]) [] = Inl Rejected"
    by (simp add: ex_store_bad_def)
  from C3_rejection_aborts_fetch [OF a, of "[''core:A'']" Rejected "[ex_A]" "[]"] a b c
  show ?thesis by blast
qed



text \<open>
  A store that answers \<^verbatim>\<open>connectNodes\<close> with an edge from \<^verbatim>\<open>A\<close> to a node \<^verbatim>\<open>Z\<close> that
  is not in the graph: \<^verbatim>\<open>cy.add\<close> throws at the edge, so \<^verbatim>\<open>expand\<close> is rejected, after
  the nodes of the neighbourhood were merged.
\<close>

lemma expand_dangling_edge_throws:
  "buildEdges [ex_store_dangling] (snd (mergeToGraph [ex_visited, ex_B1] True [ex_A]))
      (collect (snd (mergeToGraph [ex_visited, ex_B1] True [ex_A]))
         (map d_id [ex_visited, ex_B1])) = Inr [ex_edge_AZ]
   \<and> fst (expand [ex_store_dangling] [''core:A''] [ex_A]) = Inl CyError
   \<and> map e_id (snd (expand [ex_store_dangling] [''core:A''] [ex_A])) = [''core:A'', ''core:B'']"
proof -
  have a: "buildEdges [ex_store_dangling] (snd (mergeToGraph [ex_visited, ex_B1] True [ex_A]))
      (collect (snd (mergeToGraph [ex_visited, ex_B1] True [ex_A]))
         (map d_id [ex_visited, ex_B1])) = Inr [ex_edge_AZ]"
    by (simp add: buildEdges_def ex_store_dangling_def)
  have b: "fst (expand [ex_store_dangling] [''core:A''] [ex_A]) = Inl CyError"
    by code_simp
  have c: "map e_id (snd (expand [ex_store_dangling] [''core:A''] [ex_A]))
             = [''core:A'', ''core:B'']"
    by code_simp
  from a b c show ?thesis by blast
qed

section \<open>Claims about the hover preview\<close>

text \<open>
  C9: at most one delayed preview task is pending per element, a new hover replaces
  the pending task, and a cancelled or replaced task never opens its popup. The code
  departs from this on the trace below. The node handler calls \<^verbatim>\<open>setTimeout\<close> only
  after \<^verbatim>\<open>await cachedRead\<close>, and no \<^verbatim>\<open>mouseover\<close> handler clears a timer. The pointer
  leaves \<^verbatim>\<open>A\<close> while the read is under way, so \<^verbatim>\<open>mouseout\<close> finds nothing to clear; the
  read then resolves and starts timer 0. A second hover starts timer 1 and overwrites
  the recorded handle: two tasks are pending for \<^verbatim>\<open>A\<close>. The next \<^verbatim>\<open>mouseout\<close> clears
  timer 1 only, and timer 0 fires and opens its popover after the pointer has left.
\<close>

theorem C9_stacked_hover_tasks:
  "pending_for (run [MouseoverNode ''core:A'' True, Mouseout ''core:A'', ReadDone ''core:A'',
                     MouseoverNode ''core:A'' True, ReadDone ''core:A''] hover_init) ''core:A''
     = [(0, ''core:A''), (1, ''core:A'')]
   \<and> popovers (run [MouseoverNode ''core:A'' True, Mouseout ''core:A'', ReadDone ''core:A'',
                    MouseoverNode ''core:A'' True, ReadDone ''core:A'',
                    Mouseout ''core:A'', Fire 0, Fire 1] hover_init)
     = [(0, ''core:A'')]"
  by code_simp

text \<open>
  What the handlers do guarantee: (a) when the pointer is over at most one element at a
  time and the read of a node hover resolves before any other event, at most one
  delayed preview task is pending per element at any time; (b) pointer-leave cancels
  the task recorded for the element: from then on, whatever happens, that task is not
  pending and opens no popover.
\<close>

lemma hover_tasks_in_sequence:
  "(alternating None evs \<longrightarrow> (\<forall>i. length (pending_for (run evs hover_init) i) \<le> 1))
   \<and> (hoverTimeout (run evs0 hover_init) i = Some (Some h) \<longrightarrow>
        (\<forall>evs'. h \<notin> fst ` set (pending (run evs' (step (Mouseout i) (run evs0 hover_init))))
               \<and> opened_by (run evs' (step (Mouseout i) (run evs0 hover_init))) h
                   = opened_by (run evs0 hover_init) h))"
proof (intro conjI impI allI)
  fix j
  assume "alternating None evs"
  moreover have "hover_inv None hover_init"
    by (simp add: hover_inv_def hover_init_def)
  ultimately have "length (pending (run evs hover_init)) \<le> 1"
    by (rule alternating_pending)
  moreover have "length (pending_for (run evs hover_init) j) \<le> length (pending (run evs hover_init))"
    unfolding pending_for_def by (rule length_filter_le)
  ultimately show "length (pending_for (run evs hover_init) j) \<le> 1" by simp
next
  fix evs'
  let ?s = "run evs0 hover_init"
  assume h: "hoverTimeout ?s i = Some (Some h)"
  have fresh: "handles_fresh ?s"
    using handles_fresh_init by (rule handles_fresh_run)
  have c: "cancelled h (step (Mouseout i) ?s)"
    and o: "opened_by (step (Mouseout i) ?s) h = opened_by ?s h"
    using fresh h by (rule mouseout_cancels)+
  from cancelled_run [OF c, of evs'] o
  show "h \<notin> fst ` set (pending (run evs' (step (Mouseout i) ?s)))"
    and "opened_by (run evs' (step (Mouseout i) ?s)) h = opened_by ?s h"
    by (simp_all add: cancelled_def)
qed

lemma hover_tasks_example:
  "alternating None [MouseoverNode ''core:A'' True, ReadDone ''core:A'', Mouseout ''core:A'', Fire 0]
   \<and> length (pending_for (run [MouseoverNode ''core:A'' True, ReadDone ''core:A''] hover_init)
                ''core:A'') = 1
   \<and> hoverTimeout (run [MouseoverNode ''core:A'' True, ReadDone ''core:A''] hover_init) ''core:A''
       = Some (Some 0)
   \<and> 0 \<notin> fst ` set (pending (run [Fire 0] (step (Mouseout ''core:A'')
          (run [MouseoverNode ''core:A'' True, ReadDone ''core:A''] hover_init))))
   \<and> popovers (run [MouseoverNode ''core:A'' True, ReadDone ''core:A'', Mouseout ''core:A'', Fire 0]
                 hover_init) = []"
proof -
  let ?evs0 = "[MouseoverNode ''core:A'' True, ReadDone ''core:A'']"
  have a: "alternating None [MouseoverNode ''core:A'' True, ReadDone ''core:A'', Mouseout ''core:A'', Fire 0]"
    by code_simp
  have b: "length (pending_for (run ?evs0 hover_init) ''core:A'') = 1"
    by code_simp
  have c: "hoverTimeout (run ?evs0 hover_init) ''core:A'' = Some (Some 0)"
    by code_simp
  have d: "popovers (run [MouseoverNode ''core:A'' True, ReadDone ''core:A'', Mouseout ''core:A'', Fire 0]
                 hover_init) = []"
    by code_simp
  have "0 \<notin> fst ` set (pending (run [Fire 0] (step (Mouseout ''core:A'') (run ?evs0 hover_init))))"
    using hover_tasks_in_sequence [of "[]" ?evs0 "''core:A''" 0] c by blast
  with a b c d show ?thesis by blast
qed

end
